theory Spec2Isabelle
  imports Complex_Main "HOL-Library.Multiset" "HOL-Library.Char_ord" "HOL-Library.List_Lexorder"
    "HOL-Library.Product_Lexorder" "HOL-Library.AList"
begin

section \<open>Mini.cpp: an in-memory full-text search engine\<close>

text \<open>
  The development follows \<^verbatim>\<open>src/Mini.cpp\<close> top to bottom: character utilities and the
  tokenizer, the snippet extractor, the trie with its prefix cache, the inverted index
  built by \<^verbatim>\<open>build_from_files\<close>, and the search engine with its ranker, result cache
  and accessors.

  Conventions. A \<^verbatim>\<open>std::string\<close> is a \<^typ>\<open>string\<close> (a list of bytes). A C++ \<^verbatim>\<open>int\<close>
  is an \<^typ>\<open>int\<close>; where the source stores into a narrower type or multiplies without
  a guard, the two's-complement wrap-around is written out (\<open>short_of_int\<close>,
  \<open>int32_of_int\<close>). The hand-written \<^verbatim>\<open>LinkedList\<close> is a HOL list. A \<^verbatim>\<open>float\<close> is a
  \<^typ>\<open>real\<close>: rounding is not modelled, so results about scores are about which operands
  the source combines and how it orders the results, not about the last bits.
\<close>

subsection \<open>Character classes (the "C" locale of \<^verbatim>\<open><cctype>\<close>)\<close>

definition isdigit_c :: "char \<Rightarrow> bool" where
  "isdigit_c c = (48 \<le> (of_char c :: nat) \<and> (of_char c :: nat) \<le> 57)"

definition isupper_c :: "char \<Rightarrow> bool" where
  "isupper_c c = (65 \<le> (of_char c :: nat) \<and> (of_char c :: nat) \<le> 90)"

definition islower_c :: "char \<Rightarrow> bool" where
  "islower_c c = (97 \<le> (of_char c :: nat) \<and> (of_char c :: nat) \<le> 122)"

definition isalpha_c :: "char \<Rightarrow> bool" where
  "isalpha_c c = (isupper_c c \<or> islower_c c)"

definition isalnum_c :: "char \<Rightarrow> bool" where
  "isalnum_c c = (isalpha_c c \<or> isdigit_c c)"

definition tolower_c :: "char \<Rightarrow> char" where
  "tolower_c c = (if isupper_c c then char_of ((of_char c :: nat) + 32) else c)"

text \<open>\<^verbatim>\<open>toLowerFast\<close>: every byte through \<^verbatim>\<open>tolower\<close>.\<close>

definition toLowerFast :: "string \<Rightarrow> string" where
  "toLowerFast s = map tolower_c s"

subsection \<open>The tokenizer\<close>

definition STOP_WORDS :: "string list" where
  "STOP_WORDS =
    [''the'', ''and'', ''for'', ''are'', ''but'', ''not'', ''you'', ''all'', ''any'', ''can'',
     ''had'', ''her'', ''was'', ''one'', ''our'', ''out'', ''day'', ''get'', ''has'', ''him'',
     ''his'', ''how'', ''man'', ''new'', ''now'', ''old'', ''see'', ''two'', ''way'', ''who'',
     ''boy'', ''did'', ''its'', ''let'', ''put'', ''say'', ''she'', ''too'', ''use'', ''may'',
     ''also'', ''than'', ''that'', ''this'', ''with'', ''from'', ''have'', ''were'', ''been'',
     ''they'', ''what'', ''when'', ''where'', ''which'', ''will'', ''your'', ''their'']"

text \<open>
  The test both emission sites of \<^verbatim>\<open>tokenize_ultrafast\<close> apply to a completed word: not a
  stop word and not made of digits only.
\<close>

definition keep_word :: "string \<Rightarrow> bool" where
  "keep_word word = (word \<notin> set STOP_WORDS \<and> \<not> list_all isdigit_c word)"

text \<open>
  The \<^verbatim>\<open>while (*ptr && n_added < 100000)\<close> loop. The first argument is the text from
  \<^verbatim>\<open>ptr\<close> on; the loop ends at the end of the text or at the first NUL byte (the source
  scans \<^verbatim>\<open>text.c_str()\<close>). \<open>buffer\<close> holds the \<^verbatim>\<open>buf_idx\<close> bytes collected so far.
\<close>

fun tokenize_loop :: "string \<Rightarrow> string \<Rightarrow> string list \<Rightarrow> nat \<Rightarrow> string \<times> string list" where
  "tokenize_loop [] buffer tokens n_added = (buffer, tokens)"
| "tokenize_loop (c # ptr) buffer tokens n_added =
     (if c = CHR 0x00 \<or> \<not> n_added < 100000 then (buffer, tokens)
      else if isalnum_c c then
        tokenize_loop ptr (if length buffer < 31 then buffer @ [tolower_c c] else buffer)
          tokens n_added
      else if 0 < length buffer then
        (if 2 \<le> length buffer \<and> length buffer \<le> 15 \<and> keep_word buffer
         then tokenize_loop ptr [] (tokens @ [buffer]) (n_added + 1)
         else tokenize_loop ptr [] tokens n_added)
      else tokenize_loop ptr buffer tokens n_added)"

definition tokenize_ultrafast :: "string \<Rightarrow> string list" where
  "tokenize_ultrafast text =
     (if text = [] then []
      else case tokenize_loop text [] [] 0 of
        (buffer, tokens) \<Rightarrow>
          if 0 < length buffer \<and> 2 \<le> length buffer \<and> length buffer \<le> 15 \<and> keep_word buffer
          then tokens @ [buffer] else tokens)"

subsection \<open>The snippet extractor\<close>

text \<open>
  \<^verbatim>\<open>text.find(term, pos)\<close>: the least offset \<open>p \<ge> pos\<close> at which \<open>term\<close> starts, or
  \<^verbatim>\<open>npos\<close> (\<open>None\<close>). \<open>find_in\<close> walks the text from offset \<open>i\<close> on.
\<close>

fun find_in :: "string \<Rightarrow> string \<Rightarrow> nat \<Rightarrow> nat option" where
  "find_in term [] i = (if term = [] then Some i else None)"
| "find_in term (c # cs) i =
     (if take (length term) (c # cs) = term then Some i else find_in term cs (i + 1))"

definition str_find :: "string \<Rightarrow> string \<Rightarrow> nat \<Rightarrow> nat option" where
  "str_find text term pos =
     (if length text < pos then None else find_in term (drop pos text) pos)"

text \<open>The offsets returned lie between the start offset and the end of the text.\<close>

lemma find_in_range: "find_in term s i = Some p \<Longrightarrow> i \<le> p \<and> p \<le> i + length s"
  by (induction s arbitrary: i) (force split: if_splits)+

lemma str_find_range: "str_find text term pos = Some p \<Longrightarrow> pos \<le> p \<and> p \<le> length text"
  by (auto simp: str_find_def split: if_splits dest!: find_in_range)

text \<open>
  \<^verbatim>\<open>while ((pos = text.find(term, pos)) != npos) { matches.emplace_back(pos, term); pos += 1; }\<close>
\<close>

function find_all :: "string \<Rightarrow> string \<Rightarrow> nat \<Rightarrow> (nat \<times> string) list" where
  "find_all text term pos =
     (case str_find text term pos of
        None \<Rightarrow> []
      | Some p \<Rightarrow> (p, term) # find_all text term (p + 1))"
  by pat_completeness auto
termination
  by (relation "measure (\<lambda>(text, term, pos). length text + 1 - pos)")
     (auto dest!: str_find_range)

declare find_all.simps [simp del]

text \<open>The loop over the query terms; terms shorter than two bytes are skipped.\<close>

fun collect_matches :: "string \<Rightarrow> string list \<Rightarrow> (nat \<times> string) list" where
  "collect_matches text [] = []"
| "collect_matches text (term # terms) =
     (if length term < 2 then collect_matches text terms
      else find_all text term 0 @ collect_matches text terms)"

text \<open>
  The body of the loop over the sorted matches: up to 200 bytes on each side of the
  match offset, with \<^verbatim>\<open>"..."\<close> where the window does not reach an end of the text.
\<close>

definition window_snippet :: "string \<Rightarrow> nat \<Rightarrow> string" where
  "window_snippet text pos =
     (let context_start = (if 200 < pos then pos - 200 else 0);
          context_end = min (pos + 200) (length text);
          snippet = take (context_end - context_start) (drop context_start text);
          snippet = (if 0 < context_start then ''...'' @ snippet else snippet);
          snippet = (if context_end < length text then snippet @ ''...'' else snippet)
      in snippet)"

text \<open>\<^verbatim>\<open>for (auto& match : matches) { ... if (snippet.length() > 100) return snippet; }\<close>\<close>

fun first_long_snippet :: "string \<Rightarrow> (nat \<times> string) list \<Rightarrow> string option" where
  "first_long_snippet text [] = None"
| "first_long_snippet text (m # ms) =
     (let snippet = window_snippet text (fst m)
      in if 100 < length snippet then Some snippet else first_long_snippet text ms)"

text \<open>\<^verbatim>\<open>text.find('\n', start)\<close>, and the loop of the branch without matches.\<close>

fun find_char_in :: "char \<Rightarrow> string \<Rightarrow> nat \<Rightarrow> nat option" where
  "find_char_in ch [] i = None"
| "find_char_in ch (c # cs) i = (if c = ch then Some i else find_char_in ch cs (i + 1))"

definition str_find_char :: "string \<Rightarrow> char \<Rightarrow> nat \<Rightarrow> nat option" where
  "str_find_char text ch pos =
     (if length text < pos then None else find_char_in ch (drop pos text) pos)"

function first_alpha_line :: "string \<Rightarrow> nat \<Rightarrow> string option" where
  "first_alpha_line text i =
     (if i < length text then
        (if isalpha_c (text ! i) then
           (let start = i;
                end = (case str_find_char text (CHR 0x0A) start of None \<Rightarrow> length text | Some e \<Rightarrow> e);
                snippet = take (min 300 (end - start)) (drop start text)
            in if 50 < length snippet then Some snippet else first_alpha_line text (i + 1))
         else first_alpha_line text (i + 1))
      else None)"
  by pat_completeness auto
termination
  by (relation "measure (\<lambda>(text, i). length text - i)") auto

declare first_alpha_line.simps [simp del]

text \<open>
  \<^verbatim>\<open>std::sort\<close> on \<^verbatim>\<open>pair<size_t, string>\<close> uses the lexicographic order of pairs, with
  strings compared bytewise: a linear order, so the sorted sequence is unique and
  \<^const>\<open>sort\<close> returns it.
\<close>

definition get_snippet_improved :: "string \<Rightarrow> string list \<Rightarrow> string" where
  "get_snippet_improved text query_terms =
     (if text = [] \<or> query_terms = [] then []
      else
        let matches = collect_matches text query_terms in
        if matches = [] then
          (case first_alpha_line text 0 of
             Some snippet \<Rightarrow> snippet
           | None \<Rightarrow> take (min 300 (length text)) text)
        else
          (case first_long_snippet text (sort matches) of
             Some snippet \<Rightarrow> snippet
           | None \<Rightarrow> take (min 300 (length text)) text))"


text \<open>
  The fallback as the specification words it: the first 300 bytes starting at the first
  alphabetic character if that slice is longer than 50 bytes, else the first 300 bytes
  of the text.
\<close>

definition first_alpha_index :: "string \<Rightarrow> nat option" where
  "first_alpha_index text =
     (case [i \<leftarrow> [0..<length text]. isalpha_c (text ! i)] of [] \<Rightarrow> None | i # _ \<Rightarrow> Some i)"

definition claimed_fallback_snippet :: "string \<Rightarrow> string" where
  "claimed_fallback_snippet text =
     (case first_alpha_index text of
        Some i \<Rightarrow>
          (let slice = take 300 (drop i text)
           in if 50 < length slice then slice else take 300 text)
      | None \<Rightarrow> take 300 text)"

text \<open>
  A closed form of what \<^const>\<open>get_snippet_improved\<close> returns, without loops: the window
  around the least offset at which a term of two or more bytes occurs; without such an
  offset, the first 300 bytes of the rest of the line at the first alphabetic byte whose
  rest of line (up to the next newline) is longer than 50 bytes; without such a byte, the
  first 300 bytes of the text.
\<close>

definition occurs_at :: "string \<Rightarrow> string \<Rightarrow> nat \<Rightarrow> bool" where
  "occurs_at text term i = (take (length term) (drop i text) = term)"

definition match_positions :: "string \<Rightarrow> string list \<Rightarrow> nat list" where
  "match_positions text terms =
     [i \<leftarrow> [0..<length text].
        \<exists>term \<in> set terms. 2 \<le> length term \<and> occurs_at text term i]"

definition line_rest :: "string \<Rightarrow> nat \<Rightarrow> string" where
  "line_rest text i = takeWhile (\<lambda>c. c \<noteq> CHR 0x0A) (drop i text)"

definition snippet_closed_form :: "string \<Rightarrow> string list \<Rightarrow> string" where
  "snippet_closed_form text terms =
     (case match_positions text terms of
        p # _ \<Rightarrow> window_snippet text p
      | [] \<Rightarrow>
          (case [i \<leftarrow> [0..<length text]. isalpha_c (text ! i) \<and> 50 < length (line_rest text i)] of
             i # _ \<Rightarrow> take 300 (line_rest text i)
           | [] \<Rightarrow> take 300 text))"

subsection \<open>The trie\<close>

text \<open>
  \<^verbatim>\<open>UltraFastTrie::Node\<close>: an end-of-word flag and an array of 26 child pointers, a null
  pointer being \<open>None\<close>. \<open>child_at\<close> reads the array; every node the program allocates
  has 26 entries, and the bound check only makes the read total on other values.
\<close>

datatype Node = Node (is_end: bool) (children: "Node option list")

definition new_Node :: Node where
  "new_Node = Node False (replicate 26 None)"

definition letter_index :: "char \<Rightarrow> int" where
  "letter_index c = int (of_char c) - 97"

definition child_at :: "Node \<Rightarrow> nat \<Rightarrow> Node option" where
  "child_at node i = (if i < length (children node) then children node ! i else None)"

text \<open>
  \<^verbatim>\<open>insert\<close>: the loop over the bytes of the word, from the node \<open>cur\<close>. A byte outside
  \<^verbatim>\<open>'a'..'z'\<close> makes the source return at once, leaving the nodes created so far and
  setting no end-of-word flag.
\<close>

fun insert_from :: "Node \<Rightarrow> string \<Rightarrow> Node" where
  "insert_from cur [] = Node True (children cur)"
| "insert_from cur (c # word) =
     (let idx = letter_index c in
      if idx < 0 \<or> 26 \<le> idx then cur
      else
        let child = (case child_at cur (nat idx) of None \<Rightarrow> new_Node | Some n \<Rightarrow> n)
        in Node (is_end cur) ((children cur)[nat idx := Some (insert_from child word)]))"

definition insert_node :: "Node \<Rightarrow> string \<Rightarrow> Node" where
  "insert_node rt word =
     (if word = [] \<or> 25 < length word then rt else insert_from rt word)"

text \<open>The walk along the prefix in \<^verbatim>\<open>starts_with\<close>; \<open>None\<close> when an edge is missing.\<close>

fun walk :: "Node \<Rightarrow> string \<Rightarrow> Node option" where
  "walk cur [] = Some cur"
| "walk cur (c # prefix) =
     (let idx = letter_index c in
      if idx < 0 \<or> 26 \<le> idx then None
      else case child_at cur (nat idx) of None \<Rightarrow> None | Some n \<Rightarrow> walk n prefix)"

text \<open>
  \<^verbatim>\<open>FixedQueue\<close>: a ring buffer of 1024 slots, here the list of its elements from front
  to rear. \<^verbatim>\<open>push\<close> on a full queue does nothing (the caller ignores the result).
\<close>

definition MAX_QUEUE_SIZE :: nat where
  "MAX_QUEUE_SIZE = 1024"

definition q_push :: "'a list \<Rightarrow> 'a \<Rightarrow> 'a list" where
  "q_push q x = (if length q = MAX_QUEUE_SIZE then q else q @ [x])"

text \<open>\<^verbatim>\<open>for (int i = 0; i < 26 && results.size < limit; i++) if (node->children[i]) q.push(...)\<close>\<close>

function push_children :: "Node \<Rightarrow> string \<Rightarrow> nat \<Rightarrow> int \<Rightarrow> (Node \<times> string) list \<Rightarrow> nat \<Rightarrow> (Node \<times> string) list" where
  "push_children node str results_size limit q i =
     (if i < 26 \<and> int results_size < limit then
        push_children node str results_size limit
          (case child_at node i of
             None \<Rightarrow> q
           | Some child \<Rightarrow> q_push q (child, str @ [char_of (97 + i)]))
          (i + 1)
      else q)"
  by pat_completeness auto
termination
  by (relation "measure (\<lambda>(node, str, results_size, limit, q, i). 26 - i)") auto

declare push_children.simps [simp del]

text \<open>
  \<^verbatim>\<open>while (!q.empty() && results.size < limit)\<close>: the breadth-first enumeration. It
  terminates because each step replaces a node of the queue by some of its children.
\<close>

definition queue_weight :: "(Node \<times> string) list \<Rightarrow> nat" where
  "queue_weight q = sum_list (map (\<lambda>e. size (fst e)) q)"

function bfs :: "(Node \<times> string) list \<Rightarrow> string list \<Rightarrow> int \<Rightarrow> string list" where
  "bfs q results limit =
     (case q of
        [] \<Rightarrow> results
      | (node, str) # q' \<Rightarrow>
          if int (length results) < limit then
            (let results' = (if is_end node then results @ [str] else results)
             in bfs (push_children node str (length results') limit q' 0) results' limit)
          else results)"
  by pat_completeness auto

definition osize :: "Node option \<Rightarrow> nat" where
  "osize c = (case c of None \<Rightarrow> 0 | Some n \<Rightarrow> size n)"

lemma q_push_weight: "queue_weight (q_push q (n, s)) \<le> queue_weight q + size n"
  by (simp add: q_push_def queue_weight_def)

lemma push_children_weight:
  "queue_weight (push_children node str rs limit q i)
   \<le> queue_weight q + sum_list (map osize (drop i (children node)))"
proof (induction node str rs limit q i rule: push_children.induct)
  case (1 node str rs limit q i)
  show ?case
  proof (cases "i < 26 \<and> int rs < limit")
    case False
    then have "push_children node str rs limit q i = q"
      by (subst push_children.simps) auto
    then show ?thesis by simp
  next
    case True
    let ?q = "(case child_at node i of None \<Rightarrow> q
               | Some child \<Rightarrow> q_push q (child, str @ [char_of (97 + i)]))"
    have step: "push_children node str rs limit q i = push_children node str rs limit ?q (i + 1)"
      using True by (simp add: push_children.simps[of node str rs limit q i])
    have a: "queue_weight ?q + sum_list (map osize (drop (i + 1) (children node)))
             \<le> queue_weight q + sum_list (map osize (drop i (children node)))"
    proof (cases "i < length (children node)")
      case False
      then show ?thesis by (simp add: child_at_def)
    next
      case lt: True
      then have d: "drop i (children node) = children node ! i # drop (i + 1) (children node)"
        by (simp add: Cons_nth_drop_Suc)
      show ?thesis
      proof (cases "children node ! i")
        case None
        with lt d show ?thesis by (simp add: child_at_def osize_def)
      next
        case (Some child)
        with lt d q_push_weight[of q child "str @ [char_of (97 + i)]"] show ?thesis
          by (simp add: child_at_def osize_def)
      qed
    qed
    from "1.IH"[OF True] step a show ?thesis by simp
  qed
qed

lemma children_weight_less: "sum_list (map osize (children node)) < size node"
proof (cases node)
  case (Node e ch)
  have "sum_list (map osize ch) \<le> size_list (size_option size) ch"
    by (induction ch) (auto simp: osize_def split: option.splits)
  with Node show ?thesis by simp
qed

termination bfs
proof (relation "measure (\<lambda>(q, results, limit). queue_weight q)", goal_cases)
  case 1
  then show ?case by simp
next
  case (2 q results limit x21 x22 node str results')
  have "queue_weight (push_children node str (length results') limit x22 0)
        \<le> queue_weight x22 + sum_list (map osize (children node))"
    using push_children_weight[of node str "length results'" limit x22 0] by simp
  also have "\<dots> < queue_weight x22 + size node"
    using children_weight_less[of node] by simp
  finally have "queue_weight (push_children node str (length results') limit x22 0)
      < queue_weight (x21 # x22)"
    using 2(2) by (auto simp: queue_weight_def)
  with 2 show ?case by simp
qed

declare bfs.simps [simp del]


subsection \<open>Cache keys and the two FIFO-intended caches\<close>

text \<open>\<^verbatim>\<open>std::to_string(int)\<close>: decimal digits, with a minus sign for negative numbers.\<close>

definition digit_char :: "nat \<Rightarrow> char" where
  "digit_char d = ''0123456789'' ! d"

function digits :: "nat \<Rightarrow> string" where
  "digits n = (if n < 10 then [digit_char n] else digits (n div 10) @ [digit_char (n mod 10)])"
  by pat_completeness auto
termination
  by (relation "measure id") auto

declare digits.simps [simp del]

definition to_string :: "int \<Rightarrow> string" where
  "to_string i = (if i < 0 then CHR ''-'' # digits (nat (- i)) else digits (nat i))"

text \<open>
  \<^verbatim>\<open>PrefixCacheEntry\<close> and \<^verbatim>\<open>SearchCacheEntry\<close> are the same singly linked list of
  (key, results) entries with a size counter; \<^verbatim>\<open>find_in_cache\<close> and \<^verbatim>\<open>insert_in_cache\<close>
  are written twice in the source with the same body, the capacity being the field
  \<^verbatim>\<open>max_cache_size = 1000\<close> in the trie and the literal 1000 in the engine. \<open>entries\<close>
  lists the entries from the head pointer on.
\<close>

record 'a cache =
  entries :: "(string \<times> 'a) list"
  cache_size :: int

definition empty_cache :: "'a cache" where
  "empty_cache = \<lparr>entries = [], cache_size = 0\<rparr>"

fun find_entry :: "(string \<times> 'a) list \<Rightarrow> string \<Rightarrow> 'a option" where
  "find_entry [] key = None"
| "find_entry (entry # next) key = (if fst entry = key then Some (snd entry) else find_entry next key)"

definition find_in_cache :: "'a cache \<Rightarrow> string \<Rightarrow> 'a option" where
  "find_in_cache c key = find_entry (entries c) key"

text \<open>
  When the cache is full the source unlinks the entry at the head pointer, then links the
  new entry at the head.
\<close>

definition insert_in_cache :: "int \<Rightarrow> string \<Rightarrow> 'a \<Rightarrow> 'a cache \<Rightarrow> 'a cache" where
  "insert_in_cache max_cache_size key results c =
     (let c1 = (if max_cache_size \<le> cache_size c
                then \<lparr>entries = (case entries c of [] \<Rightarrow> [] | to_del # rest \<Rightarrow> rest),
                      cache_size = cache_size c - 1\<rparr>
                else c)
      in \<lparr>entries = (key, results) # entries c1, cache_size = cache_size c1 + 1\<rparr>)"

record UltraFastTrie =
  trie_root :: Node
  prefix_cache :: "string list cache"
  max_cache_size :: int

definition new_trie :: UltraFastTrie where
  "new_trie = \<lparr>trie_root = new_Node, prefix_cache = empty_cache, max_cache_size = 1000\<rparr>"

definition trie_clear :: "UltraFastTrie \<Rightarrow> UltraFastTrie" where
  "trie_clear t = t\<lparr>trie_root := new_Node, prefix_cache := empty_cache\<rparr>"

definition insert_word :: "string \<Rightarrow> UltraFastTrie \<Rightarrow> UltraFastTrie" where
  "insert_word word t = t\<lparr>trie_root := insert_node (trie_root t) word\<rparr>"

text \<open>\<^verbatim>\<open>starts_with\<close> returns the results and the trie with its updated prefix cache.\<close>

definition starts_with :: "UltraFastTrie \<Rightarrow> string \<Rightarrow> int \<Rightarrow> string list \<times> UltraFastTrie" where
  "starts_with t prefix limit =
     (let cache_key = prefix @ ''|'' @ to_string limit in
      case find_in_cache (prefix_cache t) cache_key of
        Some found \<Rightarrow> (found, t)
      | None \<Rightarrow>
          let results =
            (if prefix = [] then []
             else case walk (trie_root t) prefix of
               None \<Rightarrow> []
             | Some cur \<Rightarrow> bfs [(cur, prefix)] [] limit)
          in (results,
              t\<lparr>prefix_cache := insert_in_cache (max_cache_size t) cache_key results (prefix_cache t)\<rparr>))"


subsection \<open>The inverted index\<close>

text \<open>A value stored into a \<^verbatim>\<open>short\<close>: 16 bits, two's complement.\<close>

definition short_of_int :: "int \<Rightarrow> int" where
  "short_of_int i = (i + 32768) mod 65536 - 32768"

definition MAX_POSTING_POSITIONS :: int where
  "MAX_POSTING_POSITIONS = 50"

record Posting =
  docID :: int
  freq :: int
  positions :: "int list"

definition new_Posting :: "int \<Rightarrow> Posting" where
  "new_Posting d = \<lparr>docID = d, freq = 0, positions = []\<rparr>"

record Document =
  filename :: string
  filepath :: string
  totalTokens :: int
  fileSize :: int
  full_content :: string

text \<open>
  The body of the token loop on the posting \<open>p\<close> of the token at index \<open>i\<close>;
  \<^verbatim>\<open>pos_size\<close> is the length of \<open>positions\<close>, and the index is stored into a \<^verbatim>\<open>short\<close>.
\<close>

definition count_token :: "Posting \<Rightarrow> int \<Rightarrow> Posting" where
  "count_token p i =
     (if freq p < 1000 then
        (let p1 = p\<lparr>freq := freq p + 1\<rparr>
         in if int (length (positions p1)) < MAX_POSTING_POSITIONS
            then p1\<lparr>positions := positions p1 @ [short_of_int i]\<rparr>
            else p1)
      else p)"

text \<open>
  \<^verbatim>\<open>unordered_map<string, Posting> local\<close> is an association list in order of first
  insertion. The source's iteration order over it is unspecified; each term's posting goes
  to that term's own list, so the index does not depend on it.
\<close>

definition add_token :: "int \<Rightarrow> (string \<times> Posting) list \<Rightarrow> string \<Rightarrow> int \<Rightarrow> (string \<times> Posting) list" where
  "add_token docId local t i =
     (let p = (case map_of local t of None \<Rightarrow> new_Posting docId | Some p \<Rightarrow> p)
      in AList.update t (count_token p i) local)"

text \<open>
  The token loop. \<^verbatim>\<open>unique_words_set\<close> holds exactly the elements of
  \<^verbatim>\<open>unique_words_vec\<close>, so the model keeps the list and tests membership in it.
\<close>

fun index_tokens ::
  "int \<Rightarrow> string list \<Rightarrow> int \<Rightarrow> (string \<times> Posting) list \<Rightarrow> string list
   \<Rightarrow> (string \<times> Posting) list \<times> string list" where
  "index_tokens docId [] i local unique_words = (local, unique_words)"
| "index_tokens docId (t # tokens) i local unique_words =
     index_tokens docId tokens (i + 1) (add_token docId local t i)
       (if t \<in> set unique_words then unique_words else unique_words @ [t])"

text \<open>\<^verbatim>\<open>idx[kv.first].push_back(kv.second)\<close>\<close>

definition idx_push :: "(string \<times> Posting list) list \<Rightarrow> string \<times> Posting \<Rightarrow> (string \<times> Posting list) list" where
  "idx_push m kv =
     AList.update (fst kv) ((case map_of m (fst kv) of None \<Rightarrow> [] | Some ps \<Rightarrow> ps) @ [snd kv]) m"

text \<open>The file name after the last \<^verbatim>\<open>/\<close> or \<^verbatim>\<open>\\<close> of the path.\<close>

definition basename :: "string \<Rightarrow> string" where
  "basename path = rev (takeWhile (\<lambda>c. c \<noteq> CHR ''/'' \<and> c \<noteq> CHR 0x5C) (rev path))"

record HyperOptimizedIndex =
  idx :: "(string \<times> Posting list) list"
  docFreq :: "(string \<times> int) list"
  docs :: "Document list"
  trie :: UltraFastTrie
  total_words_processed :: int
  total_files_processed :: int

definition new_index :: HyperOptimizedIndex where
  "new_index = \<lparr>idx = [], docFreq = [], docs = [], trie = new_trie,
                 total_words_processed = 0, total_files_processed = 0\<rparr>"

definition clear :: "HyperOptimizedIndex \<Rightarrow> HyperOptimizedIndex" where
  "clear ix = ix\<lparr>idx := [], docFreq := [], docs := [], trie := trie_clear (trie ix),
                 total_words_processed := 0, total_files_processed := 0\<rparr>"

text \<open>
  The state of the loop over the files. A file is given as its path and, if it can be
  opened, its bytes.
\<close>

record build_state =
  b_index :: HyperOptimizedIndex
  unique_words_vec :: "string list"
  b_docId :: int

definition ingest_file :: "string \<Rightarrow> string \<Rightarrow> build_state \<Rightarrow> build_state" where
  "ingest_file path content st =
     (let ix = b_index st;
          tokens = tokenize_ultrafast content;
          tok_ct = int (length tokens);
          doc = \<lparr>filename = basename path, filepath = path, totalTokens = tok_ct,
                 fileSize = int (length content), full_content = content\<rparr>;
          (local, uniq) = index_tokens (b_docId st) tokens 0 [] (unique_words_vec st)
      in \<lparr>b_index = ix\<lparr>idx := foldl idx_push (idx ix) local,
                         docs := docs ix @ [doc],
                         total_words_processed := total_words_processed ix + tok_ct,
                         total_files_processed := total_files_processed ix + 1\<rparr>,
          unique_words_vec = uniq,
          b_docId = b_docId st + 1\<rparr>)"

fun ingest :: "(string \<times> string option) list \<Rightarrow> build_state \<Rightarrow> build_state" where
  "ingest [] st = st"
| "ingest ((path, opened) # files) st =
     (case opened of
        None \<Rightarrow> ingest files st
      | Some content \<Rightarrow>
          if 100 * 1024 * 1024 < int (length content) then ingest files st
          else
            let st' = ingest_file path content st
            in if 200000 < length (unique_words_vec st') then st' else ingest files st')"

text \<open>
  The exchange sort of the vocabulary by length, on the list built by prepending (hence
  \<open>rev\<close> in \<open>build_from_files\<close>): \<open>bubble_inner\<close> is the inner loop for one \<open>i\<close>, returning
  the string left at \<open>i\<close> and the rest of the list.
\<close>

fun bubble_inner :: "string \<Rightarrow> string list \<Rightarrow> string \<times> string list" where
  "bubble_inner si [] = (si, [])"
| "bubble_inner si (sj # rest) =
     (if length sj < length si
      then (case bubble_inner sj rest of (m, rest') \<Rightarrow> (m, si # rest'))
      else (case bubble_inner si rest of (m, rest') \<Rightarrow> (m, sj # rest')))"

lemma bubble_inner_length: "length (snd (bubble_inner si rest)) = length rest"
proof (induction rest arbitrary: si)
  case Nil
  then show ?case by simp
next
  case (Cons sj rest)
  from Cons[of sj] Cons[of si] show ?case
    by (cases "bubble_inner sj rest"; cases "bubble_inner si rest"; simp)
qed

function bubble_by_length :: "string list \<Rightarrow> string list" where
  "bubble_by_length [] = []"
| "bubble_by_length (si # rest) =
     (case bubble_inner si rest of (m, rest') \<Rightarrow> m # bubble_by_length rest')"
  by pat_completeness auto
termination
  apply (relation "measure length")
   apply simp
  apply (metis bubble_inner_length in_measure length_Cons lessI snd_conv)
  done

fun build_trie :: "string list \<Rightarrow> UltraFastTrie \<Rightarrow> UltraFastTrie" where
  "build_trie [] t = t"
| "build_trie (s # words) t =
     build_trie words (if 2 \<le> length s \<and> length s \<le> 20 then insert_word s t else t)"

text \<open>\<^verbatim>\<open>docFreq[kv.first] = (short)min(ct, 32767)\<close>\<close>

fun set_docFreq :: "(string \<times> Posting list) list \<Rightarrow> (string \<times> int) list \<Rightarrow> (string \<times> int) list" where
  "set_docFreq [] df = df"
| "set_docFreq (kv # rest) df =
     set_docFreq rest
       (AList.update (fst kv) (short_of_int (min (int (length (snd kv))) 32767)) df)"

definition build_from_files :: "(string \<times> string option) list \<Rightarrow> HyperOptimizedIndex \<Rightarrow> HyperOptimizedIndex" where
  "build_from_files files ix0 =
     (let ix = clear ix0 in
      if files = [] then ix
      else
        let st = ingest files \<lparr>b_index = ix, unique_words_vec = [], b_docId = 0\<rparr>;
            ix1 = b_index st;
            by_length = bubble_by_length (rev (unique_words_vec st))
        in ix1\<lparr>trie := build_trie by_length (trie ix1),
                docFreq := set_docFreq (idx ix1) (docFreq ix1)\<rparr>)"

subsection \<open>The search engine\<close>

text \<open>
  What the model cannot follow as a value: \<open>OutOfBounds\<close>, a read outside
  \<^verbatim>\<open>all_results_raw\<close>; \<open>NonFinite\<close>, a position weight that is infinite in \<^verbatim>\<open>float\<close>
  arithmetic (a negative mean position divided by a document length of zero).
\<close>

datatype error = OutOfBounds | NonFinite

record RankedDoc =
  rdocID :: int
  score :: real
  totalOccurrences :: int
  inTitle :: bool
  exactPhraseMatch :: bool
  titleBoost :: real

text \<open>\<^verbatim>\<open>RankedDoc::operator<\<close>\<close>

definition ranked_less :: "RankedDoc \<Rightarrow> RankedDoc \<Rightarrow> bool" where
  "ranked_less a b =
     (if exactPhraseMatch a \<noteq> exactPhraseMatch b then exactPhraseMatch a < exactPhraseMatch b
      else if titleBoost a \<noteq> titleBoost b then titleBoost a < titleBoost b
      else if 0.0001 < \<bar>score a - score b\<bar> then score a < score b
      else totalOccurrences a < totalOccurrences b)"

record HyperFastSearchEngine =
  index :: HyperOptimizedIndex
  Ndocs :: int
  search_cache :: "RankedDoc list cache"

definition new_engine :: HyperFastSearchEngine where
  "new_engine = \<lparr>index = new_index, Ndocs = 0, search_cache = empty_cache\<rparr>"

text \<open>
  \<^verbatim>\<open>index_folder\<close> after the directory scan: \<open>files\<close> is the scan's result, each path
  with the bytes read from it.
\<close>

definition index_folder :: "(string \<times> string option) list \<Rightarrow> HyperFastSearchEngine \<Rightarrow> HyperFastSearchEngine" where
  "index_folder files eng =
     (if files = [] then eng
      else
        let ix = build_from_files files (index eng)
        in \<lparr>index = ix, Ndocs = int (length (docs ix)), search_cache = empty_cache\<rparr>)"

definition idf :: "HyperFastSearchEngine \<Rightarrow> string \<Rightarrow> real" where
  "idf eng term =
     (case map_of (docFreq (index eng)) term of
        None \<Rightarrow> 0
      | Some df \<Rightarrow>
          if df = 0 \<or> Ndocs eng = 0 then 0
          else log 10 (real_of_int (Ndocs eng) / real_of_int df + 1))"

text \<open>The ids of the documents whose lowercased content contains the lowercased query.\<close>

fun exact_phrase_loop :: "string \<Rightarrow> Document list \<Rightarrow> int \<Rightarrow> int list" where
  "exact_phrase_loop exact_phrase [] doc_id = []"
| "exact_phrase_loop exact_phrase (d # ds) doc_id =
     (if str_find (toLowerFast (full_content d)) exact_phrase 0 \<noteq> None
      then doc_id # exact_phrase_loop exact_phrase ds (doc_id + 1)
      else exact_phrase_loop exact_phrase ds (doc_id + 1))"

text \<open>
  The title loop: for one lowercased file name, the loop over the query terms; then the
  loop over the documents, filling \<^verbatim>\<open>title_match_bonus\<close> and \<^verbatim>\<open>has_title_match\<close>.
\<close>

fun title_terms :: "string \<Rightarrow> string list \<Rightarrow> real \<times> bool \<Rightarrow> real \<times> bool" where
  "title_terms filename_lower [] acc = acc"
| "title_terms filename_lower (term # qtokens) (title_score, matched) =
     (if length term < 3 then title_terms filename_lower qtokens (title_score, matched)
      else case str_find filename_lower term 0 of
        None \<Rightarrow> title_terms filename_lower qtokens (title_score, matched)
      | Some pos \<Rightarrow>
          let term_score =
                (if (pos = 0 \<or> \<not> isalnum_c (filename_lower ! (pos - 1))) \<and>
                    (pos + length term = length filename_lower \<or>
                     \<not> isalnum_c (filename_lower ! (pos + length term)))
                 then 2 else 1);
              term_score = (if pos < 20 then term_score * 1.5 else term_score)
          in title_terms filename_lower qtokens (title_score + term_score, True))"

fun title_loop ::
  "string list \<Rightarrow> Document list \<Rightarrow> int \<Rightarrow> (int \<times> real) list \<times> (int \<times> bool) list
   \<Rightarrow> (int \<times> real) list \<times> (int \<times> bool) list" where
  "title_loop qtokens [] doc_id maps = maps"
| "title_loop qtokens (d # ds) doc_id (bonus, has) =
     (case title_terms (toLowerFast (filename d)) qtokens (0, False) of
        (title_score, matched) \<Rightarrow>
          title_loop qtokens ds (doc_id + 1)
            (if 0 < title_score then AList.update doc_id title_score bonus else bonus,
             if matched then AList.update doc_id True has else has))"

text \<open>
  What the scoring loops read besides the index. \<open>doc_length\<close> gives the token count used
  for a document id: the source reads \<^verbatim>\<open>index.docs.head->val.totalTokens\<close> in all three
  places (\<open>head_totalTokens\<close> below), whatever the id.
\<close>

record rank_context =
  doc_length :: "int \<Rightarrow> int"
  title_match_bonus :: "(int \<times> real) list"
  has_title_match_map :: "(int \<times> bool) list"
  exact_phrase_docs :: "int list"

definition has_title_match :: "rank_context \<Rightarrow> int \<Rightarrow> bool" where
  "has_title_match ctx doc_id =
     (case map_of (has_title_match_map ctx) doc_id of None \<Rightarrow> False | Some b \<Rightarrow> b)"

definition title_bonus :: "rank_context \<Rightarrow> int \<Rightarrow> real" where
  "title_bonus ctx doc_id = (case map_of (title_match_bonus ctx) doc_id of None \<Rightarrow> 0 | Some b \<Rightarrow> b)"

text \<open>
  The position weight of a posting. With a document length of zero the \<^verbatim>\<open>float\<close>
  quotient is \<open>+\<infinity>\<close> or NaN when the mean is not negative, and the test \<^verbatim>\<open>< 0.2f\<close> fails.
\<close>

definition position_weight :: "Posting \<Rightarrow> int \<Rightarrow> error + real" where
  "position_weight pp T =
     (if 0 < length (positions pp) then
        (let avg_position = real_of_int (sum_list (positions pp)) / real (length (positions pp))
         in if T = 0 then (if avg_position < 0 then Inl NonFinite else Inr 1)
            else
              let position_ratio = avg_position / real_of_int T
              in Inr (if position_ratio < 0.2 then 1 + (0.2 - position_ratio) * 2 else 1))
      else Inr 1)"

definition base_score :: "rank_context \<Rightarrow> real \<Rightarrow> Posting \<Rightarrow> error + real" where
  "base_score ctx idfv pp =
     (let T = doc_length ctx (docID pp);
          tf = real_of_int (freq pp) / (1 + ln (1 + real_of_int T / 1000))
      in case position_weight pp T of
           Inl e \<Rightarrow> Inl e
         | Inr pw \<Rightarrow>
             let b = tf * idfv * pw;
                 b = (if has_title_match ctx (docID pp) then b * (10 + title_bonus ctx (docID pp) * 5) else b);
                 b = (if docID pp \<in> set (exact_phrase_docs ctx) then b * 5 else b);
                 b = (if 10 < freq pp then b * min (1 + ln (real_of_int (freq pp)) / 5) 3 else b)
             in Inr b)"

record score_tables =
  doc_scores :: "(int \<times> real) list"
  doc_occurrences :: "(int \<times> int) list"

text \<open>
  \<^verbatim>\<open>doc_scores[docID] += base_score; doc_occurrences[docID] += pp.freq;\<close> with the
  occurrence count stored into a \<^verbatim>\<open>short\<close>. The maps are association lists in order of first
  insertion (the source's iteration order over \<^verbatim>\<open>doc_scores\<close> is unspecified).
\<close>

definition add_score :: "score_tables \<Rightarrow> int \<Rightarrow> real \<Rightarrow> int \<Rightarrow> score_tables" where
  "add_score tabs d b f =
     \<lparr>doc_scores =
        AList.update d ((case map_of (doc_scores tabs) d of None \<Rightarrow> 0 | Some s \<Rightarrow> s) + b)
          (doc_scores tabs),
      doc_occurrences =
        AList.update d
          (short_of_int ((case map_of (doc_occurrences tabs) d of None \<Rightarrow> 0 | Some n \<Rightarrow> n) + f))
          (doc_occurrences tabs)\<rparr>"

fun score_postings :: "rank_context \<Rightarrow> real \<Rightarrow> Posting list \<Rightarrow> score_tables \<Rightarrow> error + score_tables" where
  "score_postings ctx idfv [] tabs = Inr tabs"
| "score_postings ctx idfv (pp # ps) tabs =
     (case base_score ctx idfv pp of
        Inl e \<Rightarrow> Inl e
      | Inr b \<Rightarrow> score_postings ctx idfv ps (add_score tabs (docID pp) b (freq pp)))"

fun score_terms ::
  "rank_context \<Rightarrow> HyperFastSearchEngine \<Rightarrow> string list \<Rightarrow> score_tables \<Rightarrow> error + score_tables" where
  "score_terms ctx eng [] tabs = Inr tabs"
| "score_terms ctx eng (term # qtokens) tabs =
     (case map_of (idx (index eng)) term of
        None \<Rightarrow> score_terms ctx eng qtokens tabs
      | Some postings \<Rightarrow>
          (case score_postings ctx (idf eng term) postings tabs of
             Inl e \<Rightarrow> Inl e
           | Inr tabs' \<Rightarrow> score_terms ctx eng qtokens tabs'))"

text \<open>Document length normalization and title boost, for one entry of \<^verbatim>\<open>doc_scores\<close>.\<close>

definition normalize_score :: "rank_context \<Rightarrow> int \<times> real \<Rightarrow> int \<times> real" where
  "normalize_score ctx kv =
     (let docLength = doc_length ctx (fst kv);
          s = snd kv;
          s = (if docLength < 100 then s * 0.1
               else if 1000 < docLength \<and> docLength < 100000 then s * 1.2
               else if 200000 < docLength then s * 0.9
               else s);
          s = (if has_title_match ctx (fst kv) then s * (1 + title_bonus ctx (fst kv)) else s)
      in (fst kv, s))"

definition make_ranked :: "rank_context \<Rightarrow> score_tables \<Rightarrow> int \<times> real \<Rightarrow> RankedDoc" where
  "make_ranked ctx tabs kv =
     \<lparr>rdocID = fst kv,
      score = snd kv,
      totalOccurrences = (case map_of (doc_occurrences tabs) (fst kv) of None \<Rightarrow> 0 | Some n \<Rightarrow> n),
      inTitle = has_title_match ctx (fst kv),
      exactPhraseMatch = (fst kv \<in> set (exact_phrase_docs ctx)),
      titleBoost = (if has_title_match ctx (fst kv) then title_bonus ctx (fst kv) else 0)\<rparr>"

definition gather :: "rank_context \<Rightarrow> score_tables \<Rightarrow> RankedDoc list" where
  "gather ctx tabs =
     map (make_ranked ctx tabs) (filter (\<lambda>kv. \<not> snd kv \<le> 0.000001) (doc_scores tabs))"

text \<open>
  \<^verbatim>\<open>std::sort\<close> with the comparator \<^verbatim>\<open>[](a, b) { return b < a; }\<close>. The library's
  algorithm is not part of the source; the model is the stable insertion sort, which
  places \<open>a\<close> before the first \<open>b\<close> with \<open>b < a\<close>.
\<close>

fun insert_ranked :: "RankedDoc \<Rightarrow> RankedDoc list \<Rightarrow> RankedDoc list" where
  "insert_ranked a [] = [a]"
| "insert_ranked a (b # bs) = (if ranked_less b a then a # b # bs else b # insert_ranked a bs)"

definition sort_ranked :: "RankedDoc list \<Rightarrow> RankedDoc list" where
  "sort_ranked all_results_raw = foldr insert_ranked all_results_raw []"

text \<open>
  Pagination. \<^verbatim>\<open>int\<close> arithmetic is 32 bits wide with wrap-around; the loop reads
  \<^verbatim>\<open>all_results_raw[i]\<close> for \<open>start_idx \<le> i < end_idx\<close>.
\<close>

definition int32_of_int :: "int \<Rightarrow> int" where
  "int32_of_int i = (i + 2147483648) mod 4294967296 - 2147483648"

definition INT_MAX :: int where
  "INT_MAX = 2147483647"

function page_loop :: "int \<Rightarrow> int \<Rightarrow> 'a list \<Rightarrow> 'a list \<Rightarrow> error + 'a list" where
  "page_loop i end_idx all_results_raw results =
     (if i < end_idx then
        (if 0 \<le> i \<and> i < int (length all_results_raw)
         then page_loop (i + 1) end_idx all_results_raw (results @ [all_results_raw ! nat i])
         else Inl OutOfBounds)
      else Inr results)"
  by pat_completeness auto
termination
  by (relation "measure (\<lambda>(i, end_idx, all_results_raw, results). nat (end_idx - i))") auto

declare page_loop.simps [simp del]

definition paginate :: "'a list \<Rightarrow> int \<Rightarrow> int \<Rightarrow> error + 'a list" where
  "paginate all_results_raw page resultsPerPage =
     (let total_results = int (length all_results_raw);
          start_idx = int32_of_int (int32_of_int (page - 1) * resultsPerPage);
          end_idx = min (int32_of_int (start_idx + resultsPerPage)) total_results
      in page_loop start_idx end_idx all_results_raw [])"

text \<open>
  The ranker of \<^verbatim>\<open>search_with_ranking\<close>, with the choice of the token count as a
  parameter \<open>len\<close>: the source's choice is \<open>head_totalTokens\<close>; \<open>own_totalTokens\<close> is the
  choice of the specification, the count of the document the id names.
\<close>

definition make_context :: "(int \<Rightarrow> int) \<Rightarrow> HyperFastSearchEngine \<Rightarrow> string \<Rightarrow> string list \<Rightarrow> rank_context" where
  "make_context len eng query qtokens =
     (case title_loop qtokens (docs (index eng)) 0 ([], []) of
        (bonus, has) \<Rightarrow>
          \<lparr>doc_length = len,
           title_match_bonus = bonus,
           has_title_match_map = has,
           exact_phrase_docs =
             (if 2 \<le> length qtokens
              then exact_phrase_loop (toLowerFast query) (docs (index eng)) 0 else [])\<rparr>)"

definition final_scores :: "rank_context \<Rightarrow> HyperFastSearchEngine \<Rightarrow> string list \<Rightarrow> error + score_tables" where
  "final_scores ctx eng qtokens =
     (case score_terms ctx eng qtokens \<lparr>doc_scores = [], doc_occurrences = []\<rparr> of
        Inl e \<Rightarrow> Inl e
      | Inr tabs \<Rightarrow> Inr (tabs\<lparr>doc_scores := map (normalize_score ctx) (doc_scores tabs)\<rparr>))"

definition head_totalTokens :: "Document list \<Rightarrow> int \<Rightarrow> int" where
  "head_totalTokens ds doc_id = totalTokens (hd ds)"

definition own_totalTokens :: "Document list \<Rightarrow> int \<Rightarrow> int" where
  "own_totalTokens ds doc_id = totalTokens (ds ! nat doc_id)"

definition ranked_with ::
  "(Document list \<Rightarrow> int \<Rightarrow> int) \<Rightarrow> HyperFastSearchEngine \<Rightarrow> string \<Rightarrow> string list
   \<Rightarrow> error + RankedDoc list" where
  "ranked_with len eng query qtokens =
     (let ctx = make_context (len (docs (index eng))) eng query qtokens in
      case final_scores ctx eng qtokens of
        Inl e \<Rightarrow> Inl e
      | Inr tabs \<Rightarrow> Inr (sort_ranked (gather ctx tabs)))"

definition page_with ::
  "(Document list \<Rightarrow> int \<Rightarrow> int) \<Rightarrow> HyperFastSearchEngine \<Rightarrow> string \<Rightarrow> int \<Rightarrow> int
   \<Rightarrow> error + RankedDoc list" where
  "page_with len eng query page resultsPerPage =
     (if Ndocs eng = 0 then Inr []
      else
        let qtokens = tokenize_ultrafast (toLowerFast query) in
        if qtokens = [] then Inr []
        else if docs (index eng) = [] then Inr []
        else
          case ranked_with len eng query qtokens of
            Inl e \<Rightarrow> Inl e
          | Inr all_results_raw \<Rightarrow> paginate all_results_raw page resultsPerPage)"

definition search_with_ranking ::
  "HyperFastSearchEngine \<Rightarrow> string \<Rightarrow> int \<Rightarrow> int
   \<Rightarrow> error + (RankedDoc list \<times> HyperFastSearchEngine)" where
  "search_with_ranking eng query page resultsPerPage =
     (let cache_key = query @ ''|PAGE|'' @ to_string page @ ''|'' @ to_string resultsPerPage in
      case find_in_cache (search_cache eng) cache_key of
        Some found \<Rightarrow> Inr (found, eng)
      | None \<Rightarrow>
          (case page_with head_totalTokens eng query page resultsPerPage of
             Inl e \<Rightarrow> Inl e
           | Inr results \<Rightarrow>
               Inr (results,
                    eng\<lparr>search_cache :=
                          insert_in_cache 1000 cache_key results (search_cache eng)\<rparr>)))"

definition get_total_results_count ::
  "HyperFastSearchEngine \<Rightarrow> string \<Rightarrow> error + (int \<times> HyperFastSearchEngine)" where
  "get_total_results_count eng query =
     (if Ndocs eng = 0 then Inr (0, eng)
      else case search_with_ranking eng query 1 INT_MAX of
        Inl e \<Rightarrow> Inl e
      | Inr (all_results, eng') \<Rightarrow> Inr (int (length all_results), eng'))"

text \<open>
  The loop shared by the three accessors: \<^verbatim>\<open>for (n = docs.head; n; n = n->next, ++curr)
  if (curr == docID) return ...\<close>
\<close>

fun doc_at :: "Document list \<Rightarrow> int \<Rightarrow> int \<Rightarrow> Document option" where
  "doc_at [] curr_i doc_id = None"
| "doc_at (n # ns) curr_i doc_id =
     (if curr_i = doc_id then Some n else doc_at ns (curr_i + 1) doc_id)"

definition get_snippet_for_doc :: "HyperFastSearchEngine \<Rightarrow> string list \<Rightarrow> int \<Rightarrow> string" where
  "get_snippet_for_doc eng query_terms doc_id =
     (case doc_at (docs (index eng)) 0 doc_id of
        Some n \<Rightarrow> get_snippet_improved (full_content n) query_terms
      | None \<Rightarrow> [])"

definition filename_for :: "HyperFastSearchEngine \<Rightarrow> int \<Rightarrow> string" where
  "filename_for eng doc_id =
     (case doc_at (docs (index eng)) 0 doc_id of Some n \<Rightarrow> filename n | None \<Rightarrow> [])"

definition filepath_for :: "HyperFastSearchEngine \<Rightarrow> int \<Rightarrow> string" where
  "filepath_for eng doc_id =
     (case doc_at (docs (index eng)) 0 doc_id of Some n \<Rightarrow> filepath n | None \<Rightarrow> [])"

subsection \<open>Invariants of the index build\<close>

text \<open>
  The invariants of the index build. \<open>posting_inv d i p\<close>: the posting \<open>p\<close> of document
  \<open>d\<close> after the tokens before index \<open>i\<close>. \<open>posting_ok ds p\<close>: the posting \<open>p\<close> in an
  index whose documents are \<open>ds\<close>.
\<close>

definition posting_inv :: "int \<Rightarrow> int \<Rightarrow> Posting \<Rightarrow> bool" where
  "posting_inv d i p =
     (docID p = d \<and> 0 \<le> freq p \<and> freq p \<le> 1000 \<and>
      int (length (positions p)) \<le> min (freq p) 50 \<and>
      (i \<le> 32768 \<longrightarrow>
         sorted_wrt (<) (positions p) \<and> (\<forall>x \<in> set (positions p). 0 \<le> x \<and> x < i)))"

definition local_inv :: "int \<Rightarrow> int \<Rightarrow> (string \<times> Posting) list \<Rightarrow> bool" where
  "local_inv d i local =
     (distinct (map fst local) \<and> (\<forall>t p. map_of local t = Some p \<longrightarrow> posting_inv d i p))"

definition posting_ok :: "Document list \<Rightarrow> Posting \<Rightarrow> bool" where
  "posting_ok ds p =
     (0 \<le> freq p \<and> freq p \<le> 1000 \<and>
      int (length (positions p)) \<le> min (freq p) 50 \<and>
      (totalTokens (ds ! nat (docID p)) \<le> 32768 \<longrightarrow>
         sorted_wrt (<) (positions p) \<and>
         (\<forall>x \<in> set (positions p). 0 \<le> x \<and> x < totalTokens (ds ! nat (docID p)))))"

definition postings_ok :: "Document list \<Rightarrow> Posting list \<Rightarrow> bool" where
  "postings_ok ds ps =
     (sorted_wrt (<) (map docID ps) \<and>
      (\<forall>p \<in> set ps. 0 \<le> docID p \<and> docID p < int (length ds) \<and> posting_ok ds p))"

definition build_inv :: "build_state \<Rightarrow> bool" where
  "build_inv st =
     (b_docId st = int (length (docs (b_index st))) \<and>
      distinct (map fst (idx (b_index st))) \<and>
      fst ` set (idx (b_index st)) = set (unique_words_vec st) \<and>
      (\<forall>t ps. map_of (idx (b_index st)) t = Some ps \<longrightarrow> postings_ok (docs (b_index st)) ps))"

text \<open>The number of postings of the term \<^verbatim>\<open>ab\<close>.\<close>

definition ab_count :: "build_state \<Rightarrow> nat" where
  "ab_count st = (case map_of (idx (b_index st)) ''ab'' of None \<Rightarrow> 0 | Some ps \<Rightarrow> length ps)"

text \<open>
  Cache keys for the examples: the key of \<^verbatim>\<open>starts_with\<close> for the prefix of \<open>i\<close> letters
  \<^verbatim>\<open>a\<close> and the limit 10.
\<close>

definition nth_key :: "nat \<Rightarrow> string" where
  "nth_key i = replicate i (CHR ''a'') @ ''|10''"

subsection \<open>Words of the trie\<close>

text \<open>
  Well-formed nodes (26 child slots, as every node the program allocates), the bytes
  \<^verbatim>\<open>'a'..'z'\<close>, and the words of a trie: \<open>trie_contains cur word\<close> when the walk along
  \<open>word\<close> from \<open>cur\<close> ends at a node flagged end-of-word.
\<close>

inductive wf_node :: "Node \<Rightarrow> bool" where
  "length ch = 26 \<Longrightarrow> (\<And>n. Some n \<in> set ch \<Longrightarrow> wf_node n) \<Longrightarrow> wf_node (Node e ch)"

definition is_letter :: "char \<Rightarrow> bool" where
  "is_letter c = (0 \<le> letter_index c \<and> letter_index c < 26)"

definition trie_contains :: "Node \<Rightarrow> string \<Rightarrow> bool" where
  "trie_contains cur word = (case walk cur word of None \<Rightarrow> False | Some n \<Rightarrow> is_end n)"

section \<open>Properties\<close>

subsection \<open>Tokenizer\<close>

lemmas char_class_defs =
  isalnum_c_def isalpha_c_def isupper_c_def islower_c_def isdigit_c_def tolower_c_def

lemma tokenize_loop_bound:
  "length tokens = n \<Longrightarrow> n \<le> 100000 \<Longrightarrow> (n = 100000 \<longrightarrow> buffer = []) \<Longrightarrow>
   tokenize_loop inp buffer tokens n = (b', t') \<Longrightarrow>
   length t' \<le> 100000 \<and> (length t' = 100000 \<longrightarrow> b' = [])"
proof (induction inp buffer tokens n arbitrary: b' t' rule: tokenize_loop.induct)
  case (1 buffer tokens n_added)
  then show ?case by auto
next
  case (2 c ptr buffer tokens n_added)
  show ?case
  proof (cases "c = CHR 0x00 \<or> \<not> n_added < 100000")
    case True
    with 2(5-8) show ?thesis by auto
  next
    case stop: False
    show ?thesis
    proof (cases "isalnum_c c")
      case True
      with stop 2(1)[of b' t'] 2(5-8) show ?thesis by (simp split: if_splits)
    next
      case nal: False
      show ?thesis
      proof (cases "0 < length buffer")
        case False
        with stop nal 2(4)[of b' t'] 2(5-8) show ?thesis by simp
      next
        case True
        show ?thesis
        proof (cases "2 \<le> length buffer \<and> length buffer \<le> 15 \<and> keep_word buffer")
          case k: True
          with stop nal True 2(2)[of b' t'] 2(5-8) show ?thesis by simp
        next
          case k: False
          with stop nal True 2(3)[of b' t'] 2(5-8) show ?thesis by auto
        qed
      qed
    qed
  qed
qed

text \<open>
  C8. For every input byte buffer, the tokenizer emits at most 100,000 terms: the loop
  stops once 100,000 terms are emitted, and at that moment the scan buffer is empty, so
  the flush after the loop adds nothing.
\<close>

theorem tokenize_ultrafast_at_most_100000:
  "length (tokenize_ultrafast text) \<le> 100000"
proof (cases "tokenize_loop text [] [] 0")
  case (Pair buffer tokens)
  from tokenize_loop_bound[OF _ _ _ Pair]
  have "length tokens \<le> 100000 \<and> (length tokens = 100000 \<longrightarrow> buffer = [])" by simp
  with Pair show ?thesis by (auto simp: tokenize_ultrafast_def)
qed

subsection \<open>Snippet extractor\<close>

lemma find_in_None:
  "tm \<noteq> [] \<Longrightarrow> find_in tm s i = None \<Longrightarrow> j < length s \<Longrightarrow>
   take (length tm) (drop j s) \<noteq> tm"
proof (induction s arbitrary: i j)
  case Nil
  then show ?case by simp
next
  case (Cons c cs)
  then show ?case by (cases j) (auto split: if_splits)
qed

lemma find_in_Some:
  "find_in tm s i = Some p \<Longrightarrow>
   i \<le> p \<and> take (length tm) (drop (p - i) s) = tm \<and>
   (\<forall>j < p - i. take (length tm) (drop j s) \<noteq> tm)"
proof (induction s arbitrary: i)
  case Nil
  then show ?case by (auto split: if_splits)
next
  case (Cons c cs)
  show ?case
  proof (cases "take (length tm) (c # cs) = tm")
    case True
    with Cons.prems show ?thesis by simp
  next
    case False
    with Cons.prems have r: "find_in tm cs (i + 1) = Some p" by simp
    from Cons.IH[OF r] have ip: "i + 1 \<le> p"
      and m: "take (length tm) (drop (p - (i + 1)) cs) = tm"
      and n: "\<forall>j < p - (i + 1). take (length tm) (drop j cs) \<noteq> tm" by auto
    from ip have e: "p - i = Suc (p - (i + 1))" by simp
    have "\<forall>j < p - i. take (length tm) (drop j (c # cs)) \<noteq> tm"
    proof (intro allI impI)
      fix j assume "j < p - i"
      then show "take (length tm) (drop j (c # cs)) \<noteq> tm"
        using False n e by (cases j) auto
    qed
    with ip m e show ?thesis by simp
  qed
qed

lemma str_find_None:
  "tm \<noteq> [] \<Longrightarrow> str_find body tm pos = None \<Longrightarrow> pos \<le> j \<Longrightarrow> \<not> occurs_at body tm j"
proof -
  assume t: "tm \<noteq> []" and f: "str_find body tm pos = None" and pj: "pos \<le> j"
  show ?thesis
  proof (cases "j < length body")
    case False
    with t show ?thesis by (simp add: occurs_at_def)
  next
    case True
    with pj f have "find_in tm (drop pos body) pos = None" by (simp add: str_find_def)
    from find_in_None[OF t this, of "j - pos"] True pj show ?thesis
      by (simp add: occurs_at_def)
  qed
qed

lemma str_find_Some:
  "str_find body tm pos = Some p \<Longrightarrow>
   pos \<le> p \<and> occurs_at body tm p \<and> (\<forall>j. pos \<le> j \<and> j < p \<longrightarrow> \<not> occurs_at body tm j)"
proof -
  assume f: "str_find body tm pos = Some p"
  then have le: "pos \<le> length body" and fi: "find_in tm (drop pos body) pos = Some p"
    by (auto simp: str_find_def split: if_splits)
  from find_in_Some[OF fi] have ip: "pos \<le> p"
    and m: "take (length tm) (drop (p - pos) (drop pos body)) = tm"
    and n: "\<forall>j < p - pos. take (length tm) (drop j (drop pos body)) \<noteq> tm" by auto
  have "\<forall>j. pos \<le> j \<and> j < p \<longrightarrow> \<not> occurs_at body tm j"
  proof (intro allI impI)
    fix j assume a: "pos \<le> j \<and> j < p"
    then have "j - pos < p - pos" by arith
    with n have "take (length tm) (drop (j - pos) (drop pos body)) \<noteq> tm" by blast
    with a show "\<not> occurs_at body tm j" by (simp add: occurs_at_def)
  qed
  with ip m show ?thesis by (simp add: occurs_at_def)
qed

lemma occurs_at_lt: "tm \<noteq> [] \<Longrightarrow> occurs_at body tm i \<Longrightarrow> i < length body"
  by (cases "i < length body") (auto simp: occurs_at_def)

lemma find_all_fst:
  "tm \<noteq> [] \<Longrightarrow>
   fst ` set (find_all body tm pos) = {p. pos \<le> p \<and> occurs_at body tm p}"
proof (induction body tm pos rule: find_all.induct)
  case (1 body tm pos)
  show ?case
  proof (cases "str_find body tm pos")
    case None
    then have "find_all body tm pos = []" by (simp add: find_all.simps[of body tm pos])
    with str_find_None[OF "1.prems" None] show ?thesis by auto
  next
    case (Some p)
    from str_find_Some[OF Some] have ip: "pos \<le> p" and o: "occurs_at body tm p"
      and n: "\<forall>j. pos \<le> j \<and> j < p \<longrightarrow> \<not> occurs_at body tm j" by auto
    from "1.IH"[OF Some "1.prems"]
    have ih: "fst ` set (find_all body tm (p + 1)) = {q. p + 1 \<le> q \<and> occurs_at body tm q}" .
    have "{q. pos \<le> q \<and> occurs_at body tm q} = insert p {q. p + 1 \<le> q \<and> occurs_at body tm q}"
    proof (intro set_eqI iffI)
      fix q assume "q \<in> {q. pos \<le> q \<and> occurs_at body tm q}"
      then have a: "pos \<le> q" "occurs_at body tm q" by auto
      with n have "\<not> q < p" by blast
      with a show "q \<in> insert p {q. p + 1 \<le> q \<and> occurs_at body tm q}" by auto
    next
      fix q assume "q \<in> insert p {q. p + 1 \<le> q \<and> occurs_at body tm q}"
      with ip o show "q \<in> {q. pos \<le> q \<and> occurs_at body tm q}" by auto
    qed
    moreover from Some have "find_all body tm pos = (p, tm) # find_all body tm (p + 1)"
      by (simp add: find_all.simps[of body tm pos])
    ultimately show ?thesis using ih by simp
  qed
qed

lemma collect_matches_fst:
  "fst ` set (collect_matches body tms) =
   {p. \<exists>tm \<in> set tms. 2 \<le> length tm \<and> occurs_at body tm p}"
proof (induction tms)
  case Nil
  then show ?case by simp
next
  case (Cons tm tms)
  show ?case
  proof (cases "length tm < 2")
    case True
    with Cons show ?thesis by auto
  next
    case False
    then have ne: "tm \<noteq> []" by auto
    from False Cons find_all_fst[OF ne, of body 0] show ?thesis
      by (auto simp: image_Un)
  qed
qed

lemma occurs_at_lt2: "2 \<le> length tm \<Longrightarrow> occurs_at body tm p \<Longrightarrow> p < length body"
  by (rule occurs_at_lt[of tm]) auto

lemma match_positions_set:
  "set (match_positions body tms) =
   {p. \<exists>tm \<in> set tms. 2 \<le> length tm \<and> occurs_at body tm p}"
  unfolding match_positions_def set_filter
  by (auto intro: occurs_at_lt2)

lemma filter_upt_hd_least:
  "filter P [a..<b] = x # xs \<Longrightarrow> y \<in> set (filter P [a..<b]) \<Longrightarrow> x \<le> y"
proof -
  assume e: "filter P [a..<b] = x # xs" and y: "y \<in> set (filter P [a..<b])"
  have "sorted (filter P [a..<b])" by (simp add: sorted_wrt_filter)
  with e y show ?thesis by auto
qed

lemma hd_sort_fst:
  fixes ms :: "(nat \<times> string) list"
  assumes "sort ms = m # rest" and "q \<in> fst ` set ms"
  shows "fst m \<le> q"
proof -
  from assms(2) obtain y where y: "y \<in> set ms" "fst y = q" by auto
  have s: "sorted (sort ms)" by simp
  from y have "y \<in> set (sort ms)" by simp
  with assms(1) s have "m \<le> y" by auto
  then show ?thesis using y by (auto simp: less_eq_prod_def)
qed

lemma window_snippet_short:
  assumes "p \<le> length body" and "length (window_snippet body p) \<le> 100"
  shows "length body \<le> 100"
  using assms by (auto simp: window_snippet_def Let_def min_def split: if_splits)

lemma window_snippet_whole:
  assumes "p \<le> length body" and "length body \<le> 100"
  shows "window_snippet body p = body"
  using assms by (auto simp: window_snippet_def Let_def min_def split: if_splits)

lemma first_long_snippet_None:
  assumes "length body \<le> 100" and "\<forall>m \<in> set ms. fst m \<le> length body"
  shows "first_long_snippet body ms = None"
  using assms by (induction ms) (auto simp: window_snippet_whole Let_def)


lemma find_char_in_takeWhile:
  "(case find_char_in ch s i of None \<Rightarrow> i + length s | Some e \<Rightarrow> e) =
   i + length (takeWhile (\<lambda>c. c \<noteq> ch) s)"
proof (induction s arbitrary: i)
  case Nil
  then show ?case by simp
next
  case (Cons a s)
  from Cons[of "i + 1"] show ?case by (auto split: option.splits)
qed

lemma line_end_takeWhile:
  assumes "pos \<le> length body"
  shows "(case str_find_char body ch pos of None \<Rightarrow> length body | Some e \<Rightarrow> e) - pos =
         length (takeWhile (\<lambda>c. c \<noteq> ch) (drop pos body))"
proof -
  from assms have "str_find_char body ch pos = find_char_in ch (drop pos body) pos"
    by (simp add: str_find_char_def)
  moreover from assms have "pos + length (drop pos body) = length body" by simp
  ultimately show ?thesis
    using find_char_in_takeWhile[where ch = ch and s = "drop pos body" and i = pos]
    by (simp split: option.splits)
qed

lemma take_min_takeWhile:
  "take (min n (length (takeWhile P xs))) xs = take n (takeWhile P xs)"
proof -
  have "take n (takeWhile P xs) = take n (take (length (takeWhile P xs)) xs)"
    by (simp add: takeWhile_eq_take[symmetric])
  then show ?thesis by (simp add: min.commute)
qed

lemma first_alpha_line_closed:
  "first_alpha_line body i =
   (case [j \<leftarrow> [i..<length body]. isalpha_c (body ! j) \<and> 50 < length (line_rest body j)] of
      j # _ \<Rightarrow> Some (take 300 (line_rest body j))
    | [] \<Rightarrow> None)"
proof (induction body i rule: first_alpha_line.induct)
  case (1 body i)
  show ?case
  proof (cases "i < length body")
    case False
    then show ?thesis by (simp add: first_alpha_line.simps[of body i])
  next
    case True
    then have upt: "[i..<length body] = i # [i + 1..<length body]"
      by (simp add: upt_conv_Cons)
    from True have le: "i \<le> length body" by simp
    have sn: "take (min 300 ((case str_find_char body (CHR 0x0A) i of None \<Rightarrow> length body | Some e \<Rightarrow> e) - i))
                (drop i body) = take 300 (line_rest body i)"
      unfolding line_end_takeWhile[OF le] line_rest_def by (rule take_min_takeWhile)
    have ln: "50 < length (take 300 (line_rest body i)) \<longleftrightarrow> 50 < length (line_rest body i)"
      by auto
    show ?thesis
    proof (cases "isalpha_c (body ! i)")
      case False
      with True "1.IH"(2)[OF True False] upt show ?thesis
        by (simp add: first_alpha_line.simps[of body i])
    next
      case al: True
      have step: "first_alpha_line body i =
          (if 50 < length (take 300 (line_rest body i)) then Some (take 300 (line_rest body i))
           else first_alpha_line body (i + 1))"
        by (subst first_alpha_line.simps) (simp only: True al if_True Let_def sn)
      show ?thesis
      proof (cases "50 < length (line_rest body i)")
        case long: True
        with step ln have "first_alpha_line body i = Some (take 300 (line_rest body i))"
          by simp
        with long al upt show ?thesis by simp
      next
        case short: False
        with step ln have "first_alpha_line body i = first_alpha_line body (i + 1)"
          by simp
        moreover from short ln have "\<not> 50 < length (take (min 300 ((case str_find_char body (CHR 0x0A) i of None \<Rightarrow> length body | Some e \<Rightarrow> e) - i)) (drop i body))"
          unfolding sn by simp
        from "1.IH"(1)[OF True al refl refl refl this]
        have "first_alpha_line body (i + 1) =
          (case [j \<leftarrow> [i + 1..<length body]. isalpha_c (body ! j) \<and> 50 < length (line_rest body j)] of
             j # _ \<Rightarrow> Some (take 300 (line_rest body j)) | [] \<Rightarrow> None)" .
        ultimately show ?thesis using short upt by simp
      qed
    qed
  qed
qed

text \<open>
  C7 (as amended). For every text and non-empty list of query terms: if a term of length
  \<open>\<ge> 2\<close> occurs in the text, the snippet is the window around the earliest occurrence (up
  to 200 bytes before and after, with the \<^verbatim>\<open>"..."\<close> marks), whatever its length; if no
  term occurs, the snippet is the first 300 bytes of the rest of the line starting at the
  first alphabetic byte whose rest of line is longer than 50 bytes, else the first 300
  bytes of the text.
\<close>

theorem get_snippet_improved_closed_form:
  assumes "query_terms \<noteq> []"
  shows "get_snippet_improved body query_terms = snippet_closed_form body query_terms"
proof (cases "body = []")
  case True
  then show ?thesis
    by (simp add: get_snippet_improved_def snippet_closed_form_def match_positions_def)
next
  case ne: False
  let ?ms = "collect_matches body query_terms"
  have sets: "fst ` set ?ms = set (match_positions body query_terms)"
    by (simp add: collect_matches_fst match_positions_set)
  show ?thesis
  proof (cases "?ms = []")
    case True
    with sets have mp: "match_positions body query_terms = []" by simp
    have fb: "take (min 300 (length body)) body = take 300 body"
      by (cases "300 \<le> length body") (simp_all add: min_def)
    from True ne assms mp show ?thesis
      unfolding get_snippet_improved_def snippet_closed_form_def
      by (simp add: first_alpha_line_closed fb split: list.splits)
  next
    case False
    then have "sort ?ms \<noteq> []" by (metis length_sort length_0_conv)
    then obtain m rest where srt: "sort ?ms = m # rest" by (cases "sort ?ms") auto
    from False sets have "match_positions body query_terms \<noteq> []" by auto
    then obtain p ps where mp: "match_positions body query_terms = p # ps"
      by (cases "match_positions body query_terms") auto
    have "m \<in> set (sort ?ms)" using srt by simp
    then have min: "fst m \<in> fst ` set ?ms" by simp
    with sets mp have "p \<le> fst m"
      using filter_upt_hd_least[of _ 0 "length body" p ps "fst m"]
      unfolding match_positions_def by simp
    moreover have "fst m \<le> p"
      using hd_sort_fst[OF srt, of p] sets mp by simp
    ultimately have pm: "fst m = p" by simp
    have bound: "\<forall>x \<in> set (sort ?ms). fst x \<le> length body"
    proof
      fix x assume "x \<in> set (sort ?ms)"
      then have "fst x \<in> set (match_positions body query_terms)" using sets by auto
      then show "fst x \<le> length body" by (simp add: match_positions_def)
    qed
    then have pb: "p \<le> length body" using srt pm by auto
    have "(case first_long_snippet body (sort ?ms) of Some snippet \<Rightarrow> snippet
            | None \<Rightarrow> take (min 300 (length body)) body) = window_snippet body p"
    proof (cases "100 < length (window_snippet body p)")
      case True
      with srt pm show ?thesis by (simp add: Let_def)
    next
      case False
      with pb have short: "length body \<le> 100" using window_snippet_short[of p body] by simp
      from first_long_snippet_None[OF short bound] short pb show ?thesis
        by (simp add: window_snippet_whole)
    qed
    with False ne assms mp show ?thesis
      unfolding get_snippet_improved_def snippet_closed_form_def by (simp add: Let_def)
  qed
qed

theorem get_snippet_improved_closed_form_witness:
  "[''lo'', ''wor''] \<noteq> [] \<and>
   get_snippet_improved ''hello world'' [''lo'', ''wor''] = ''hello world'' \<and>
   snippet_closed_form ''hello world'' [''lo'', ''wor''] = ''hello world''"
proof -
  have c: "snippet_closed_form ''hello world'' [''lo'', ''wor''] = ''hello world''"
    by (simp add: snippet_closed_form_def match_positions_def occurs_at_def window_snippet_def
        upt_rec[of 0] eval_nat_numeral)
  have h: "[''lo'', ''wor''] \<noteq> ([] :: string list)" by simp
  from get_snippet_improved_closed_form[OF h, of "''hello world''"] c h show ?thesis by simp
qed

text \<open>
  The fallback of the specification's wording differs from the source's: the slice stops
  at the next newline, and later alphabetic bytes are tried. On a two-byte first line
  followed by a line of 60 letters, with a query term that does not occur, the source
  returns the second line, the wording the whole text.
\<close>

theorem snippet_fallback_counterexample:
  "collect_matches (''ab'' @ [CHR 0x0A] @ replicate 60 (CHR ''c'')) [''zz''] = [] \<and>
   get_snippet_improved (''ab'' @ [CHR 0x0A] @ replicate 60 (CHR ''c'')) [''zz'']
     = replicate 60 (CHR ''c'') \<and>
   claimed_fallback_snippet (''ab'' @ [CHR 0x0A] @ replicate 60 (CHR ''c''))
     = ''ab'' @ [CHR 0x0A] @ replicate 60 (CHR ''c'')"
proof (intro conjI)
  show "collect_matches (''ab'' @ [CHR 0x0A] @ replicate 60 (CHR ''c'')) [''zz''] = []"
    by (simp add: find_all.simps str_find_def eval_nat_numeral)
  show "get_snippet_improved (''ab'' @ [CHR 0x0A] @ replicate 60 (CHR ''c'')) [''zz'']
     = replicate 60 (CHR ''c'')"
    by (simp add: get_snippet_improved_def find_all.simps str_find_def first_alpha_line.simps
        str_find_char_def char_class_defs eval_nat_numeral Let_def)
  show "claimed_fallback_snippet (''ab'' @ [CHR 0x0A] @ replicate 60 (CHR ''c''))
     = ''ab'' @ [CHR 0x0A] @ replicate 60 (CHR ''c'')"
    by (simp add: claimed_fallback_snippet_def first_alpha_index_def char_class_defs
        eval_nat_numeral upt_rec[of 0] Let_def)
qed

subsection \<open>Inverted index\<close>

lemma short_of_int_id: "- 32768 \<le> i \<Longrightarrow> i \<le> 32767 \<Longrightarrow> short_of_int i = i"
  by (simp add: short_of_int_def)

lemma posting_inv_new: "posting_inv d i (new_Posting d)"
  by (simp add: posting_inv_def new_Posting_def)

lemma posting_inv_mono: "posting_inv d i p \<Longrightarrow> i \<le> j \<Longrightarrow> posting_inv d j p"
  by (fastforce simp: posting_inv_def)

lemma count_token_inv:
  assumes "0 \<le> i" and "posting_inv d i p"
  shows "posting_inv d (i + 1) (count_token p i)"
proof (cases "freq p < 1000")
  case False
  with assms(2) posting_inv_mono[of d i p "i + 1"] show ?thesis
    by (simp add: count_token_def)
next
  case f: True
  show ?thesis
  proof (cases "int (length (positions p)) < 50")
    case False
    with f assms(2) show ?thesis
      by (auto simp: count_token_def posting_inv_def MAX_POSTING_POSITIONS_def Let_def)
  next
    case True
    have pos: "i + 1 \<le> 32768 \<Longrightarrow>
        sorted_wrt (<) (positions p @ [short_of_int i]) \<and>
        (\<forall>x \<in> set (positions p @ [short_of_int i]). 0 \<le> x \<and> x < i + 1)"
    proof -
      assume b: "i + 1 \<le> 32768"
      with assms(1) have s: "short_of_int i = i" by (intro short_of_int_id) auto
      from b assms(2) have "sorted_wrt (<) (positions p)"
        and "\<forall>x \<in> set (positions p). 0 \<le> x \<and> x < i"
        by (auto simp: posting_inv_def)
      with s assms(1) show ?thesis by (auto simp: sorted_wrt_append)
    qed
    from f True assms(2) have
      "docID p = d \<and> 0 \<le> freq p + 1 \<and> freq p + 1 \<le> 1000 \<and>
       int (length (positions p @ [short_of_int i])) \<le> min (freq p + 1) 50"
      by (auto simp: posting_inv_def)
    with pos f True show ?thesis
      by (simp add: count_token_def posting_inv_def MAX_POSTING_POSITIONS_def Let_def)
  qed
qed

lemma add_token_inv:
  assumes "0 \<le> i" and "local_inv d i local"
  shows "local_inv d (i + 1) (add_token d local t i)"
proof -
  let ?p = "case map_of local t of None \<Rightarrow> new_Posting d | Some p \<Rightarrow> p"
  from assms(2) have "posting_inv d i ?p"
    by (auto simp: local_inv_def posting_inv_new split: option.splits)
  then have new: "posting_inv d (i + 1) (count_token ?p i)"
    using assms(1) by (rule count_token_inv[rotated])
  have old: "\<And>u q. map_of local u = Some q \<Longrightarrow> posting_inv d (i + 1) q"
    using assms(2) posting_inv_mono[of d i _ "i + 1"] by (auto simp: local_inv_def)
  from assms(2) have "distinct (map fst (add_token d local t i))"
    by (simp add: add_token_def local_inv_def distinct_update)
  moreover have "\<forall>u q. map_of (add_token d local t i) u = Some q \<longrightarrow> posting_inv d (i + 1) q"
    using new old by (auto simp: add_token_def update_conv' Let_def split: if_splits)
  ultimately show ?thesis by (simp add: local_inv_def)
qed

lemma add_token_dom:
  "fst ` set (add_token d local t i) = insert t (fst ` set local)"
  by (simp add: add_token_def dom_update Let_def)

lemma index_tokens_inv:
  assumes "0 \<le> i" and "local_inv d i local"
    and "index_tokens d tokens i local uniq = (local', uniq')"
  shows "local_inv d (i + int (length tokens)) local' \<and>
         fst ` set local' = fst ` set local \<union> set tokens \<and>
         set uniq' = set uniq \<union> set tokens"
  using assms
proof (induction tokens arbitrary: i local uniq)
  case Nil
  then show ?case by simp
next
  case (Cons t tokens)
  let ?l = "add_token d local t i"
  let ?u = "if t \<in> set uniq then uniq else uniq @ [t]"
  from Cons.prems(3) have r: "index_tokens d tokens (i + 1) ?l ?u = (local', uniq')" by simp
  from Cons.prems(1) have i1: "0 \<le> i + 1" by simp
  from Cons.IH[OF i1 add_token_inv[OF Cons.prems(1,2)] r]
  have "local_inv d (i + 1 + int (length tokens)) local'"
    and "fst ` set local' = fst ` set ?l \<union> set tokens"
    and "set uniq' = set ?u \<union> set tokens" by auto
  then show ?case by (auto simp: add_token_dom add.assoc)
qed

lemma foldl_idx_push_map_of:
  assumes "distinct (map fst local)"
  shows "map_of (foldl idx_push m local) t =
         (case map_of local t of
            None \<Rightarrow> map_of m t
          | Some p \<Rightarrow> Some ((case map_of m t of None \<Rightarrow> [] | Some ps \<Rightarrow> ps) @ [p]))"
  using assms
proof (induction local arbitrary: m)
  case Nil
  then show ?case by simp
next
  case (Cons kv local)
  obtain k p where kv: "kv = (k, p)" by (cases kv)
  from Cons.prems kv have nk: "map_of local k = None" and d: "distinct (map fst local)"
    by (auto simp: map_of_eq_None_iff)
  have m': "\<And>u. map_of (idx_push m (k, p)) u =
      (if u = k then Some ((case map_of m k of None \<Rightarrow> [] | Some ps \<Rightarrow> ps) @ [p])
       else map_of m u)"
    by (simp add: idx_push_def update_conv')
  have ih: "map_of (foldl idx_push (idx_push m (k, p)) local) t =
         (case map_of local t of
            None \<Rightarrow> map_of (idx_push m (k, p)) t
          | Some q \<Rightarrow> Some ((case map_of (idx_push m (k, p)) t of None \<Rightarrow> [] | Some ps \<Rightarrow> ps) @ [q]))"
    by (rule Cons.IH[OF d])
  show ?case
  proof (cases "t = k")
    case True
    with nk ih m'[of k] show ?thesis by (simp add: kv)
  next
    case False
    with ih m'[of t] show ?thesis by (simp add: kv split: option.splits)
  qed
qed

lemma foldl_idx_push_distinct:
  "distinct (map fst m) \<Longrightarrow> distinct (map fst (foldl idx_push m local))"
  by (induction local arbitrary: m) (simp_all add: idx_push_def distinct_update)

lemma posting_ok_append:
  assumes "docID p < int (length ds)" and "0 \<le> docID p" and "posting_ok ds p"
  shows "posting_ok (ds @ [d]) p"
proof -
  from assms(1,2) have "nat (docID p) < length ds" by auto
  then have "(ds @ [d]) ! nat (docID p) = ds ! nat (docID p)" by (simp add: nth_append)
  with assms(3) show ?thesis by (simp add: posting_ok_def)
qed

lemma postings_ok_append: "postings_ok ds ps \<Longrightarrow> postings_ok (ds @ [d]) ps"
  by (auto simp: postings_ok_def posting_ok_append)

lemma postings_ok_snoc:
  assumes "postings_ok ds ps" and "posting_inv (int (length ds)) (totalTokens d) p"
  shows "postings_ok (ds @ [d]) (ps @ [p])"
proof -
  from assms(2) have dp: "docID p = int (length ds)" by (simp add: posting_inv_def)
  then have "(ds @ [d]) ! nat (docID p) = d" by simp
  with assms(2) have ok: "posting_ok (ds @ [d]) p"
    by (simp add: posting_ok_def posting_inv_def)
  from assms(1) have "\<forall>q \<in> set ps. docID q < docID p" by (simp add: postings_ok_def dp)
  with assms(1) have "sorted_wrt (<) (map docID (ps @ [p]))"
    by (auto simp: postings_ok_def sorted_wrt_append)
  with postings_ok_append[OF assms(1), of d] ok dp show ?thesis
    by (auto simp: postings_ok_def)
qed

lemma postings_ok_Nil: "postings_ok ds []"
  by (simp add: postings_ok_def)

lemma ingest_file_inv:
  assumes "build_inv st"
  shows "build_inv (ingest_file path content st)"
proof -
  let ?d = "b_docId st"
  let ?toks = "tokenize_ultrafast content"
  let ?ix = "b_index st"
  obtain lcl uniq' where it: "index_tokens ?d ?toks 0 [] (unique_words_vec st) = (lcl, uniq')"
    by (cases "index_tokens ?d ?toks 0 [] (unique_words_vec st)")
  let ?doc = "\<lparr>filename = basename path, filepath = path, totalTokens = int (length ?toks),
               fileSize = int (length content), full_content = content\<rparr>"
  have st': "ingest_file path content st =
      \<lparr>b_index = ?ix\<lparr>idx := foldl idx_push (idx ?ix) lcl,
                       docs := docs ?ix @ [?doc],
                       total_words_processed := total_words_processed ?ix + int (length ?toks),
                       total_files_processed := total_files_processed ?ix + 1\<rparr>,
       unique_words_vec = uniq', b_docId = ?d + 1\<rparr>"
    by (simp add: ingest_file_def Let_def it)
  have l0: "local_inv ?d 0 []" by (simp add: local_inv_def)
  from index_tokens_inv[OF _ l0 it]
  have li: "local_inv ?d (int (length ?toks)) lcl"
    and dom: "fst ` set lcl = set ?toks"
    and un: "set uniq' = set (unique_words_vec st) \<union> set ?toks" by auto
  from li have dl: "distinct (map fst lcl)" by (simp add: local_inv_def)
  from assms have did: "?d = int (length (docs ?ix))"
    and dist: "distinct (map fst (idx ?ix))"
    and keys: "fst ` set (idx ?ix) = set (unique_words_vec st)"
    and ok: "\<And>t ps. map_of (idx ?ix) t = Some ps \<Longrightarrow> postings_ok (docs ?ix) ps"
    by (auto simp: build_inv_def)
  have mo: "\<And>t. map_of (foldl idx_push (idx ?ix) lcl) t =
         (case map_of lcl t of
            None \<Rightarrow> map_of (idx ?ix) t
          | Some p \<Rightarrow> Some ((case map_of (idx ?ix) t of None \<Rightarrow> [] | Some ps \<Rightarrow> ps) @ [p]))"
    by (rule foldl_idx_push_map_of[OF dl])
  have keys': "fst ` set (foldl idx_push (idx ?ix) lcl) = set uniq'"
  proof -
    have "dom (map_of (foldl idx_push (idx ?ix) lcl)) = dom (map_of (idx ?ix)) \<union> dom (map_of lcl)"
      by (auto simp: mo split: option.splits)
    then show ?thesis using keys dom un by (simp add: dom_map_of_conv_image_fst)
  qed
  have ok': "\<forall>t ps. map_of (foldl idx_push (idx ?ix) lcl) t = Some ps \<longrightarrow>
        postings_ok (docs ?ix @ [?doc]) ps"
  proof (intro allI impI)
    fix t ps
    assume a: "map_of (foldl idx_push (idx ?ix) lcl) t = Some ps"
    show "postings_ok (docs ?ix @ [?doc]) ps"
    proof (cases "map_of lcl t")
      case None
      with a mo[of t] have "map_of (idx ?ix) t = Some ps" by simp
      from postings_ok_append[OF ok[OF this]] show ?thesis .
    next
      case (Some p)
      with li have pi: "posting_inv (int (length (docs ?ix))) (totalTokens ?doc) p"
        by (simp add: local_inv_def did)
      from Some a mo[of t] have ps: "ps = (case map_of (idx ?ix) t of None \<Rightarrow> [] | Some qs \<Rightarrow> qs) @ [p]"
        by simp
      have "postings_ok (docs ?ix) (case map_of (idx ?ix) t of None \<Rightarrow> [] | Some qs \<Rightarrow> qs)"
        using ok by (auto simp: postings_ok_Nil split: option.splits)
      from postings_ok_snoc[OF this pi] ps show ?thesis by simp
    qed
  qed
  show ?thesis
    unfolding st' build_inv_def
    using did foldl_idx_push_distinct[OF dist, of lcl] keys' ok' by simp
qed

lemma ingest_inv: "build_inv st \<Longrightarrow> build_inv (ingest files st)"
proof (induction files arbitrary: st)
  case Nil
  then show ?case by simp
next
  case (Cons f files)
  obtain path opened where f: "f = (path, opened)" by (cases f)
  show ?case
  proof (cases opened)
    case None
    with f Cons show ?thesis by simp
  next
    case (Some content)
    from ingest_file_inv[OF Cons.prems, of path content] Cons.IH
    have "build_inv (ingest files (ingest_file path content st))"
      and "build_inv (ingest_file path content st)" by auto
    with f Some Cons show ?thesis by (simp add: Let_def)
  qed
qed

lemma set_docFreq_map_of:
  assumes "distinct (map fst m)"
  shows "map_of (set_docFreq m df) t =
         (case map_of m t of
            None \<Rightarrow> map_of df t
          | Some ps \<Rightarrow> Some (short_of_int (min (int (length ps)) 32767)))"
  using assms
proof (induction m arbitrary: df)
  case Nil
  then show ?case by simp
next
  case (Cons kv m)
  obtain k ps where kv: "kv = (k, ps)" by (cases kv)
  from Cons.prems kv have nk: "map_of m k = None" and d: "distinct (map fst m)"
    by (auto simp: map_of_eq_None_iff)
  show ?case
    using Cons.IH[OF d, of "AList.update (fst kv) (short_of_int (min (int (length (snd kv))) 32767)) df"] nk
    by (auto simp: kv update_conv' split: option.splits)
qed

lemma build_from_files_idx:
  "files \<noteq> [] \<Longrightarrow>
   idx (build_from_files files ix0) =
     idx (b_index (ingest files \<lparr>b_index = clear ix0, unique_words_vec = [], b_docId = 0\<rparr>)) \<and>
   docs (build_from_files files ix0) =
     docs (b_index (ingest files \<lparr>b_index = clear ix0, unique_words_vec = [], b_docId = 0\<rparr>)) \<and>
   docFreq (build_from_files files ix0) =
     set_docFreq (idx (b_index (ingest files \<lparr>b_index = clear ix0, unique_words_vec = [], b_docId = 0\<rparr>))) []"
proof -
  assume ne: "files \<noteq> []"
  have "\<And>st. docFreq (b_index st) = [] \<Longrightarrow> docFreq (b_index (ingest files st)) = []"
  proof (induction files)
    case Nil
    then show ?case by simp
  next
    case (Cons f files)
    obtain path opened where f: "f = (path, opened)" by (cases f)
    have "\<And>c. docFreq (b_index (ingest_file path c st)) = []"
      using Cons.prems by (simp add: ingest_file_def Let_def split: prod.splits)
    with Cons f show ?case by (auto simp: Let_def split: option.splits)
  qed
  from this[of "\<lparr>b_index = clear ix0, unique_words_vec = [], b_docId = 0\<rparr>"]
  have "docFreq (b_index (ingest files \<lparr>b_index = clear ix0, unique_words_vec = [], b_docId = 0\<rparr>)) = []"
    by (simp add: clear_def)
  with ne show ?thesis by (simp add: build_from_files_def Let_def)
qed

text \<open>A fresh build starts from a state that satisfies the invariant.\<close>

lemma build_inv_init: "build_inv \<lparr>b_index = clear ix0, unique_words_vec = [], b_docId = 0\<rparr>"
  by (simp add: build_inv_def clear_def)

lemma build_from_files_postings:
  assumes "map_of (idx (build_from_files files ix0)) t = Some ps"
  shows "map_of (docFreq (build_from_files files ix0)) t = Some (min (int (length ps)) 32767) \<and>
         distinct (map docID ps) \<and>
         (\<forall>p \<in> set ps.
            0 \<le> docID p \<and> docID p < int (length (docs (build_from_files files ix0))) \<and>
            posting_ok (docs (build_from_files files ix0)) p)"
proof (cases "files = []")
  case True
  with assms show ?thesis by (simp add: build_from_files_def clear_def Let_def)
next
  case False
  let ?st = "ingest files \<lparr>b_index = clear ix0, unique_words_vec = [], b_docId = 0\<rparr>"
  from build_from_files_idx[OF False, of ix0]
  have i: "idx (build_from_files files ix0) = idx (b_index ?st)"
    and d: "docs (build_from_files files ix0) = docs (b_index ?st)"
    and f: "docFreq (build_from_files files ix0) = set_docFreq (idx (b_index ?st)) []" by auto
  have inv: "build_inv ?st" by (rule ingest_inv[OF build_inv_init])
  from assms i have m: "map_of (idx (b_index ?st)) t = Some ps" by simp
  with inv have ok: "postings_ok (docs (b_index ?st)) ps" by (auto simp: build_inv_def)
  from inv have dist: "distinct (map fst (idx (b_index ?st)))" by (simp add: build_inv_def)
  have "short_of_int (min (int (length ps)) 32767) = min (int (length ps)) 32767"
    by (intro short_of_int_id) auto
  with set_docFreq_map_of[OF dist, of "[]" t] m f
  have "map_of (docFreq (build_from_files files ix0)) t = Some (min (int (length ps)) 32767)"
    by simp
  moreover from ok have "distinct (map docID ps)"
    by (simp add: postings_ok_def strict_sorted_iff)
  ultimately show ?thesis using ok d by (simp add: postings_ok_def)
qed


lemma tokenize_ab: "tokenize_ultrafast ''ab'' = [''ab'']"
  by (simp add: tokenize_ultrafast_def char_class_defs keep_word_def STOP_WORDS_def)

lemma ingest_file_ab:
  assumes "unique_words_vec st = [] \<or> unique_words_vec st = [''ab'']"
  shows "ab_count (ingest_file path ''ab'' st) = Suc (ab_count st) \<and>
         unique_words_vec (ingest_file path ''ab'' st) = [''ab'']"
  using assms
  by (auto simp: ingest_file_def tokenize_ab add_token_def idx_push_def update_conv' Let_def
      ab_count_def split: option.splits)

lemma ingest_all_ab:
  assumes "\<forall>f \<in> set files. snd f = Some ''ab''"
    and "unique_words_vec st = [] \<or> unique_words_vec st = [''ab'']"
  shows "ab_count (ingest files st) = length files + ab_count st"
  using assms
proof (induction files arbitrary: st)
  case Nil
  then show ?case by simp
next
  case (Cons f files)
  obtain path where f: "f = (path, Some ''ab'')" using Cons.prems(1) by (cases f) auto
  from ingest_file_ab[OF Cons.prems(2), of path]
  have c: "ab_count (ingest_file path ''ab'' st) = Suc (ab_count st)"
    and u: "unique_words_vec (ingest_file path ''ab'' st) = [''ab'']" by auto
  from Cons.prems(1) have r: "\<forall>f \<in> set files. snd f = Some ''ab''" by simp
  from Cons.IH[OF r, of "ingest_file path ''ab'' st"] u c
  have "ab_count (ingest files (ingest_file path ''ab'' st)) = length files + Suc (ab_count st)"
    by simp
  with f u show ?case by (simp add: Let_def)
qed

lemma build_all_ab:
  assumes "files \<noteq> []" and "\<forall>f \<in> set files. snd f = Some ''ab''"
  shows "map_option length (map_of (idx (build_from_files files ix0)) ''ab'') = Some (length files) \<and>
         map_of (docFreq (build_from_files files ix0)) ''ab'' = Some (min (int (length files)) 32767)"
proof -
  let ?st0 = "\<lparr>b_index = clear ix0, unique_words_vec = [], b_docId = 0\<rparr>"
  have "ab_count ?st0 = 0" by (simp add: ab_count_def clear_def)
  with ingest_all_ab[OF assms(2), of ?st0] have c: "ab_count (ingest files ?st0) = length files"
    by simp
  with assms(1) obtain ps where ps: "map_of (idx (b_index (ingest files ?st0))) ''ab'' = Some ps"
    and l: "length ps = length files"
    by (auto simp: ab_count_def split: option.splits)
  with build_from_files_idx[OF assms(1), of ix0]
  have m: "map_of (idx (build_from_files files ix0)) ''ab'' = Some ps" by simp
  from build_from_files_postings[OF m] l m show ?thesis by simp
qed

text \<open>
  C5 (as amended). After \<^verbatim>\<open>build_from_files\<close> on any input list, for every term \<open>t\<close> of the
  index with postings \<open>ps\<close>: \<open>doc_freq[t]\<close> is the number of postings saturated at 32767,
  the document ids of \<open>ps\<close> are pairwise distinct and name documents of the index, and
  every posting has \<open>0 \<le> freq \<le> 1000\<close>, at most \<open>min(freq, 50)\<close> positions and, when its
  document has at most 32768 tokens, strictly increasing positions that are token indices
  of that document.
\<close>

theorem build_from_files_invariants:
  assumes "map_of (idx (build_from_files files ix0)) t = Some ps"
  shows "map_of (docFreq (build_from_files files ix0)) t = Some (min (int (length ps)) 32767) \<and>
         distinct (map docID ps) \<and>
         (\<forall>p \<in> set ps.
            0 \<le> docID p \<and> docID p < int (length (docs (build_from_files files ix0))) \<and>
            posting_ok (docs (build_from_files files ix0)) p)"
  using assms by (rule build_from_files_postings)

text \<open>
  The document frequency is stored as \<^verbatim>\<open>(short)min(ct, 32767)\<close>: with 32768 files that
  all contain the term \<^verbatim>\<open>ab\<close>, the term has 32768 postings and a document frequency of
  32767.
\<close>

theorem docFreq_saturation_counterexample:
  "map_option length
     (map_of (idx (build_from_files
        (map (\<lambda>i. (to_string (int i) @ ''.txt'', Some ''ab'')) [0..<32768]) new_index)) ''ab'')
     = Some 32768 \<and>
   map_of (docFreq (build_from_files
        (map (\<lambda>i. (to_string (int i) @ ''.txt'', Some ''ab'')) [0..<32768]) new_index)) ''ab''
     = Some 32767"
proof -
  let ?files = "map (\<lambda>i. (to_string (int i) @ ''.txt'', Some ''ab'')) [0..<32768]"
  have ne: "?files \<noteq> []" by simp
  have al: "\<forall>f \<in> set ?files. snd f = Some ''ab''" by auto
  from build_all_ab[OF ne al, of new_index] show ?thesis by simp
qed

text \<open>
  The token index is stored into a \<^verbatim>\<open>short\<close>: the index 32768 is stored as \<open>-32768\<close>.
\<close>

lemma position_wraps_at_32768:
  "count_token (new_Posting 0) 32768 = \<lparr>docID = 0, freq = 1, positions = [- 32768]\<rparr>"
  by (simp add: count_token_def new_Posting_def MAX_POSTING_POSITIONS_def short_of_int_def Let_def)

lemma tokenize_hello: "tokenize_ultrafast ''hello world hello'' = [''hello'', ''world'', ''hello'']"
  by (simp add: tokenize_ultrafast_def char_class_defs keep_word_def STOP_WORDS_def)

lemma build_hello_idx:
  "map_of (idx (build_from_files [(''a.txt'', Some ''hello world hello'')] new_index)) ''hello''
   = Some [\<lparr>docID = 0, freq = 2, positions = [0, 2]\<rparr>]"
  by (simp add: build_from_files_idx ingest_file_def tokenize_hello add_token_def count_token_def
      new_Posting_def MAX_POSTING_POSITIONS_def short_of_int_def idx_push_def clear_def new_index_def
      Let_def)

theorem build_from_files_invariants_witness:
  "map_of (idx (build_from_files [(''a.txt'', Some ''hello world hello'')] new_index)) ''hello''
     = Some [\<lparr>docID = 0, freq = 2, positions = [0, 2]\<rparr>] \<and>
   map_of (docFreq (build_from_files [(''a.txt'', Some ''hello world hello'')] new_index)) ''hello''
     = Some 1 \<and>
   posting_ok (docs (build_from_files [(''a.txt'', Some ''hello world hello'')] new_index))
     \<lparr>docID = 0, freq = 2, positions = [0, 2]\<rparr>"
  using build_from_files_invariants[OF build_hello_idx] build_hello_idx by simp

subsection \<open>Accessors, result cache, pagination\<close>

subsection \<open>Accessors\<close>

lemma doc_at_None:
  "doc_id < curr_i \<or> curr_i + int (length ds) \<le> doc_id \<Longrightarrow> doc_at ds curr_i doc_id = None"
proof (induction ds arbitrary: curr_i)
  case Nil
  then show ?case by simp
next
  case (Cons n ns)
  from Cons.prems have "curr_i \<noteq> doc_id" by auto
  moreover from Cons.prems have "doc_id < curr_i + 1 \<or> curr_i + 1 + int (length ns) \<le> doc_id"
    by auto
  ultimately show ?case using Cons.IH[of "curr_i + 1"] by simp
qed

text \<open>
  C10. For every engine state, with \<open>N\<close> documents in the index, and every document id
  outside \<open>[0, N)\<close>, \<^verbatim>\<open>filename_for\<close>, \<^verbatim>\<open>filepath_for\<close> and \<^verbatim>\<open>get_snippet_for_doc\<close>
  return the empty string.
\<close>

theorem accessors_out_of_range:
  assumes "doc_id < 0 \<or> int (length (docs (index eng))) \<le> doc_id"
  shows "filename_for eng doc_id = [] \<and> filepath_for eng doc_id = [] \<and>
         get_snippet_for_doc eng query_terms doc_id = []"
proof -
  from assms have "doc_at (docs (index eng)) 0 doc_id = None"
    by (intro doc_at_None) auto
  then show ?thesis
    by (simp add: filename_for_def filepath_for_def get_snippet_for_doc_def)
qed

subsection \<open>Result cache\<close>

lemma find_in_cache_insert:
  "find_in_cache (insert_in_cache cap key results c) key = Some results"
  by (simp add: find_in_cache_def insert_in_cache_def Let_def)

text \<open>
  C9. For every engine state and every (query, page, page size): when a search returns,
  the same search on the state it leaves returns the same result list and leaves the state
  unchanged. The first call either finds the key in the cache or puts its results at the
  head of the cache, where the second call finds them.
\<close>

theorem search_with_ranking_idempotent:
  assumes "search_with_ranking eng query page resultsPerPage = Inr (results, eng')"
  shows "search_with_ranking eng' query page resultsPerPage = Inr (results, eng')"
proof -
  let ?key = "query @ ''|PAGE|'' @ to_string page @ ''|'' @ to_string resultsPerPage"
  show ?thesis
  proof (cases "find_in_cache (search_cache eng) ?key")
    case (Some found)
    with assms have "results = found" "eng' = eng"
      by (simp_all add: search_with_ranking_def)
    with Some show ?thesis by (simp add: search_with_ranking_def)
  next
    case None
    with assms obtain r where
      r: "page_with head_totalTokens eng query page resultsPerPage = Inr r"
      by (auto simp: search_with_ranking_def split: sum.splits)
    with None assms have "results = r"
      and e: "eng' = eng\<lparr>search_cache := insert_in_cache 1000 ?key r (search_cache eng)\<rparr>"
      by (auto simp: search_with_ranking_def)
    then have "find_in_cache (search_cache eng') ?key = Some results"
      by (simp add: find_in_cache_insert)
    then show ?thesis by (simp add: search_with_ranking_def)
  qed
qed

subsection \<open>Pagination\<close>

lemma page_loop_slice:
  assumes "0 \<le> i" and "end_idx \<le> int (length xs)"
  shows "page_loop i end_idx xs acc = Inr (acc @ take (nat (end_idx - i)) (drop (nat i) xs))"
  using assms
proof (induction i end_idx xs acc rule: page_loop.induct)
  case (1 i end_idx xs acc)
  show ?case
  proof (cases "i < end_idx")
    case False
    then show ?thesis by (simp add: page_loop.simps[of i end_idx xs acc])
  next
    case True
    with "1.prems" have inb: "0 \<le> i \<and> i < int (length xs)" by auto
    then have lt: "nat i < length xs" by auto
    from True have n: "nat (end_idx - i) = Suc (nat (end_idx - (i + 1)))" by auto
    from inb have ni: "nat (i + 1) = Suc (nat i)" by auto
    have "take (nat (end_idx - i)) (drop (nat i) xs)
          = xs ! nat i # take (nat (end_idx - (i + 1))) (drop (nat (i + 1)) xs)"
      unfolding n ni using lt by (simp add: Cons_nth_drop_Suc[symmetric])
    moreover have "page_loop i end_idx xs acc
          = page_loop (i + 1) end_idx xs (acc @ [xs ! nat i])"
      using True inb by (simp add: page_loop.simps[of i end_idx xs acc])
    moreover have "page_loop (i + 1) end_idx xs (acc @ [xs ! nat i])
          = Inr ((acc @ [xs ! nat i]) @ take (nat (end_idx - (i + 1))) (drop (nat (i + 1)) xs))"
      using "1.IH"[OF True inb] "1.prems" by simp
    ultimately show ?thesis by simp
  qed
qed

lemma int32_of_int_id: "- 2147483648 \<le> i \<Longrightarrow> i \<le> 2147483647 \<Longrightarrow> int32_of_int i = i"
  by (simp add: int32_of_int_def)

lemma paginate_slice:
  assumes "1 \<le> page" and "1 \<le> resultsPerPage"
    and "page * resultsPerPage \<le> INT_MAX"
  shows "paginate xs page resultsPerPage
         = Inr (take (nat resultsPerPage) (drop (nat ((page - 1) * resultsPerPage)) xs))"
proof -
  define s where "s = (page - 1) * resultsPerPage"
  have pm: "s + resultsPerPage = page * resultsPerPage"
    by (simp add: s_def algebra_simps)
  have s0: "0 \<le> s" using assms(1,2) by (simp add: s_def)
  have "page * 1 \<le> page * resultsPerPage"
    using assms(1,2) by (intro mult_left_mono) auto
  with assms(3) have pmax: "page \<le> 2147483647" by (simp add: INT_MAX_def)
  from pm assms(2,3) have smax: "s + resultsPerPage \<le> 2147483647" "s \<le> 2147483647"
    by (simp_all add: INT_MAX_def)
  have a: "int32_of_int (page - 1) = page - 1"
    using assms(1) pmax by (intro int32_of_int_id) auto
  have b: "int32_of_int s = s"
    using s0 smax by (intro int32_of_int_id) auto
  have c: "int32_of_int (s + resultsPerPage) = s + resultsPerPage"
    using s0 smax assms(2) by (intro int32_of_int_id) auto
  define e where "e = min (s + resultsPerPage) (int (length xs))"
  have "paginate xs page resultsPerPage = page_loop s e xs []"
    unfolding paginate_def Let_def a s_def[symmetric] b c e_def ..
  also have "\<dots> = Inr ([] @ take (nat (e - s)) (drop (nat s) xs))"
    using s0 by (intro page_loop_slice) (auto simp: e_def)
  also have "take (nat (e - s)) (drop (nat s) xs) = take (nat resultsPerPage) (drop (nat s) xs)"
  proof (cases "s + resultsPerPage \<le> int (length xs)")
    case True
    then have "e - s = resultsPerPage" by (simp add: e_def min_def)
    then show ?thesis by simp
  next
    case False
    then have "e = int (length xs)" by (simp add: e_def min_def)
    moreover have "length (drop (nat s) xs) \<le> nat resultsPerPage"
      using False s0 by auto
    moreover have "length (drop (nat s) xs) \<le> nat (int (length xs) - s)"
      using s0 by auto
    ultimately show ?thesis by simp
  qed
  finally show ?thesis by (simp add: s_def)
qed

lemma paginate_overflow: "paginate xs 3 1073741824 = Inl OutOfBounds"
  by (simp add: paginate_def int32_of_int_def Let_def page_loop.simps[of "- 2147483648"])


lemma tokenize_hello_world: "tokenize_ultrafast ''hello world'' = [''hello'', ''world'']"
  by (simp add: tokenize_ultrafast_def char_class_defs keep_word_def STOP_WORDS_def)

lemma tokenize_zebra: "tokenize_ultrafast (toLowerFast ''zebra'') = [''zebra'']"
  by (simp add: tokenize_ultrafast_def toLowerFast_def char_class_defs keep_word_def STOP_WORDS_def)

lemma hello_engine_facts:
  "Ndocs (index_folder [(''hello.txt'', Some ''hello world'')] new_engine) = 1"
  "docs (index (index_folder [(''hello.txt'', Some ''hello world'')] new_engine)) =
     [\<lparr>filename = ''hello.txt'', filepath = ''hello.txt'', totalTokens = 2, fileSize = 11,
       full_content = ''hello world''\<rparr>]"
  "map_of (idx (index (index_folder [(''hello.txt'', Some ''hello world'')] new_engine))) ''zebra'' = None"
  "search_cache (index_folder [(''hello.txt'', Some ''hello world'')] new_engine) = empty_cache"
  by (simp_all add: index_folder_def build_from_files_idx ingest_file_def tokenize_hello_world
      add_token_def idx_push_def clear_def new_index_def new_engine_def basename_def Let_def)

lemma ranked_with_no_postings:
  assumes "map_of (idx (index eng)) t = None"
  shows "ranked_with len eng query [t] = Inr []"
  using assms by (simp add: ranked_with_def final_scores_def gather_def sort_ranked_def Let_def)

lemma page_with_overflow:
  assumes "Ndocs eng \<noteq> 0" and "tokenize_ultrafast (toLowerFast query) \<noteq> []"
    and "docs (index eng) \<noteq> []"
    and "ranked_with len eng query (tokenize_ultrafast (toLowerFast query)) = Inr all_results_raw"
  shows "page_with len eng query 3 1073741824 = Inl OutOfBounds"
  using assms by (simp add: page_with_def paginate_overflow Let_def)

text \<open>
  C3, at an input where the source fails. With page 3 and page size \<open>2\<^sup>3\<^sup>0\<close> the product
  \<^verbatim>\<open>(page - 1) * resultsPerPage\<close> is \<open>2\<^sup>3\<^sup>1\<close>, which wraps to \<open>-2\<^sup>3\<^sup>1\<close>; \<^verbatim>\<open>end_idx\<close> is
  \<open>-2\<^sup>3\<^sup>0\<close>, and the loop reads \<^verbatim>\<open>all_results_raw[-2147483648]\<close>. The specification
  promises the empty list for a page past the end.
\<close>

theorem search_page_overflow_out_of_bounds:
  "search_with_ranking (index_folder [(''hello.txt'', Some ''hello world'')] new_engine)
     ''zebra'' 3 1073741824 = Inl OutOfBounds"
proof -
  let ?E = "index_folder [(''hello.txt'', Some ''hello world'')] new_engine"
  have "ranked_with head_totalTokens ?E ''zebra'' (tokenize_ultrafast (toLowerFast ''zebra'')) = Inr []"
    unfolding tokenize_zebra by (rule ranked_with_no_postings[OF hello_engine_facts(3)])
  then have "page_with head_totalTokens ?E ''zebra'' 3 1073741824 = Inl OutOfBounds"
    by (intro page_with_overflow[where all_results_raw = "[]"])
       (simp_all add: hello_engine_facts tokenize_zebra)
  then show ?thesis
    by (simp add: search_with_ranking_def hello_engine_facts(4) find_in_cache_def empty_cache_def)
qed

text \<open>
  Where the products fit 32 bits, a page is the slice \<open>[(page-1)\<cdot>size, page\<cdot>size)\<close> of the
  ranked list, clamped to its length.
\<close>

lemma page_with_slice:
  assumes "1 \<le> page" and "1 \<le> resultsPerPage" and "page * resultsPerPage \<le> INT_MAX"
    and "Ndocs eng \<noteq> 0" and "tokenize_ultrafast (toLowerFast query) \<noteq> []"
    and "docs (index eng) \<noteq> []"
    and "ranked_with len eng query (tokenize_ultrafast (toLowerFast query)) = Inr all_results_raw"
  shows "page_with len eng query page resultsPerPage =
         Inr (take (nat resultsPerPage) (drop (nat ((page - 1) * resultsPerPage)) all_results_raw))"
  using assms(4-7) paginate_slice[OF assms(1-3)] by (simp add: page_with_def Let_def)

theorem accessors_out_of_range_witness:
  "int (length (docs (index (index_folder [(''hello.txt'', Some ''hello world'')] new_engine)))) \<le> 1 \<and>
   filename_for (index_folder [(''hello.txt'', Some ''hello world'')] new_engine) 0 = ''hello.txt'' \<and>
   filename_for (index_folder [(''hello.txt'', Some ''hello world'')] new_engine) 1 = [] \<and>
   filepath_for (index_folder [(''hello.txt'', Some ''hello world'')] new_engine) 1 = [] \<and>
   get_snippet_for_doc (index_folder [(''hello.txt'', Some ''hello world'')] new_engine) [''hello''] 1 = []"
proof -
  let ?E = "index_folder [(''hello.txt'', Some ''hello world'')] new_engine"
  have len: "int (length (docs (index ?E))) \<le> 1"
    by (simp add: hello_engine_facts(2))
  then have h: "(1::int) < 0 \<or> int (length (docs (index ?E))) \<le> 1" by simp
  have "filename_for ?E 0 = ''hello.txt''"
    by (simp add: filename_for_def hello_engine_facts(2))
  with accessors_out_of_range[OF h, of "[''hello'']"] len show ?thesis by simp
qed

theorem search_with_ranking_idempotent_witness:
  "search_with_ranking (index_folder [(''hello.txt'', Some ''hello world'')] new_engine) ''zebra'' 1 10
     = Inr ([], (index_folder [(''hello.txt'', Some ''hello world'')] new_engine)
                 \<lparr>search_cache := \<lparr>entries = [(''zebra|PAGE|1|10'', [])], cache_size = 1\<rparr>\<rparr>) \<and>
   search_with_ranking ((index_folder [(''hello.txt'', Some ''hello world'')] new_engine)
                 \<lparr>search_cache := \<lparr>entries = [(''zebra|PAGE|1|10'', [])], cache_size = 1\<rparr>\<rparr>) ''zebra'' 1 10
     = Inr ([], (index_folder [(''hello.txt'', Some ''hello world'')] new_engine)
                 \<lparr>search_cache := \<lparr>entries = [(''zebra|PAGE|1|10'', [])], cache_size = 1\<rparr>\<rparr>)"
proof -
  let ?E = "index_folder [(''hello.txt'', Some ''hello world'')] new_engine"
  have r: "ranked_with head_totalTokens ?E ''zebra'' (tokenize_ultrafast (toLowerFast ''zebra'')) = Inr []"
    unfolding tokenize_zebra by (rule ranked_with_no_postings[OF hello_engine_facts(3)])
  have "page_with head_totalTokens ?E ''zebra'' 1 10 = Inr []"
    using page_with_slice[where page = 1 and resultsPerPage = 10, OF _ _ _ _ _ _ r]
    by (simp add: hello_engine_facts tokenize_zebra INT_MAX_def)
  then have first: "search_with_ranking ?E ''zebra'' 1 10
     = Inr ([], ?E\<lparr>search_cache := \<lparr>entries = [(''zebra|PAGE|1|10'', [])], cache_size = 1\<rparr>\<rparr>)"
    by (simp add: search_with_ranking_def hello_engine_facts(4) find_in_cache_def empty_cache_def
        insert_in_cache_def to_string_def digits.simps digit_char_def Let_def)
  from search_with_ranking_idempotent[OF first] first show ?thesis by simp
qed

subsection \<open>Caches\<close>

lemma insert_in_cache_full:
  assumes "cap \<le> cache_size c" and "entries c = newest # older"
  shows "entries (insert_in_cache cap key results c) = (key, results) # older"
  using assms by (simp add: insert_in_cache_def Let_def)

lemma find_entry_map:
  assumes "inj_on key (insert j (set js))"
  shows "find_entry (map (\<lambda>i. (key i, v)) js) (key j) = (if j \<in> set js then Some v else None)"
  using assms by (induction js) (auto simp: inj_on_def)

lemma inj_nth_key: "inj_on nth_key A"
  by (auto simp: inj_on_def nth_key_def)

lemma fill_cache:
  "n \<le> 1000 \<Longrightarrow>
   foldl (\<lambda>c i. insert_in_cache 1000 (nth_key i) ([] :: string list) c) empty_cache [0..<n]
   = \<lparr>entries = map (\<lambda>i. (nth_key i, [])) (rev [0..<n]), cache_size = int n\<rparr>"
proof (induction n)
  case 0
  then show ?case by (simp add: empty_cache_def)
next
  case (Suc n)
  from Suc.prems have "n \<le> 1000" by simp
  from Suc.IH[OF this] Suc.prems show ?case by (simp add: insert_in_cache_def Let_def)
qed

lemma find_entry_keys:
  "find_entry (map (\<lambda>i. (nth_key i, v)) js) (nth_key j) = (if j \<in> set js then Some v else None)"
  by (rule find_entry_map[OF inj_nth_key])

text \<open>
  C4, at an input where the source fails. Insert the keys \<open>nth_key 0\<close>, \<open>\<dots>\<close>,
  \<open>nth_key 1000\<close> into an empty cache of capacity 1000. After the first 1000 insertions the
  cache is full and holds \<open>nth_key 999\<close>. The next insertion removes \<open>nth_key 999\<close>, the
  entry inserted last, and the oldest entry \<open>nth_key 0\<close> stays: the head of the list is
  the newest entry, and the head is what \<^verbatim>\<open>insert_in_cache\<close> unlinks.
\<close>

theorem insert_in_cache_evicts_newest:
  "find_in_cache
     (foldl (\<lambda>c i. insert_in_cache 1000 (nth_key i) ([] :: string list) c) empty_cache [0..<1000])
     (nth_key 999) = Some [] \<and>
   find_in_cache
     (foldl (\<lambda>c i. insert_in_cache 1000 (nth_key i) ([] :: string list) c) empty_cache [0..<1001])
     (nth_key 999) = None \<and>
   find_in_cache
     (foldl (\<lambda>c i. insert_in_cache 1000 (nth_key i) ([] :: string list) c) empty_cache [0..<1001])
     (nth_key 0) = Some []"
proof -
  let ?ins = "\<lambda>c i. insert_in_cache 1000 (nth_key i) ([] :: string list) c"
  have r: "rev [0..<1000] = 999 # rev [0..<999]"
    using upt_Suc_append[of 0 999] by simp
  have full: "foldl ?ins empty_cache [0..<1000]
      = \<lparr>entries = map (\<lambda>i. (nth_key i, [])) (999 # rev [0..<999]), cache_size = 1000\<rparr>"
    using fill_cache[of 1000] by (simp add: r)
  have "[0..<1001] = [0..<1000] @ [1000::nat]"
    using upt_Suc_append[of 0 1000] by simp
  then have "foldl ?ins empty_cache [0..<1001] = ?ins (foldl ?ins empty_cache [0..<1000]) 1000"
    by simp
  also have "\<dots> = \<lparr>entries = map (\<lambda>i. (nth_key i, [])) (1000 # rev [0..<999]), cache_size = 1000\<rparr>"
    unfolding full by (simp add: insert_in_cache_def Let_def)
  finally have after: "foldl ?ins empty_cache [0..<1001]
      = \<lparr>entries = map (\<lambda>i. (nth_key i, [])) (1000 # rev [0..<999]), cache_size = 1000\<rparr>" .
  have a: "find_in_cache (foldl ?ins empty_cache [0..<1000]) (nth_key 999) = Some []"
    by (simp only: find_in_cache_def full cache.simps find_entry_keys) simp
  have b: "find_in_cache (foldl ?ins empty_cache [0..<1001]) (nth_key 999) = None"
    by (simp only: find_in_cache_def after cache.simps find_entry_keys) simp
  have c: "find_in_cache (foldl ?ins empty_cache [0..<1001]) (nth_key 0) = Some []"
    by (simp only: find_in_cache_def after cache.simps find_entry_keys) simp
  from a b c show ?thesis by (intro conjI)
qed

subsection \<open>Trie\<close>

lemma wf_new_Node: "wf_node new_Node"
  unfolding new_Node_def by (rule wf_node.intros) auto

lemma wf_node_length: "wf_node cur \<Longrightarrow> length (children cur) = 26"
  by (erule wf_node.cases) simp

lemma wf_node_child:
  assumes "wf_node cur" and "child_at cur i = Some n"
  shows "wf_node n"
  using assms(1)
proof (cases rule: wf_node.cases)
  case (1 ch e)
  from assms(2) 1(1) have "i < length ch" and "ch ! i = Some n"
    by (auto simp: child_at_def split: if_splits)
  then have "Some n \<in> set ch" by (metis nth_mem)
  then show ?thesis by (rule 1(3))
qed

lemma wf_node_flag: "wf_node cur \<Longrightarrow> wf_node (Node e (children cur))"
  by (erule wf_node.cases) (auto intro: wf_node.intros)

lemma wf_node_update:
  assumes "wf_node cur" and "wf_node n"
  shows "wf_node (Node e ((children cur)[i := Some n]))"
proof (rule wf_node.intros)
  show "length ((children cur)[i := Some n]) = 26"
    using wf_node_length[OF assms(1)] by simp
next
  fix m assume "Some m \<in> set ((children cur)[i := Some n])"
  then have "Some m \<in> insert (Some n) (set (children cur))"
    using set_update_subset_insert by fastforce
  then show "wf_node m"
    using assms by (auto elim: wf_node.cases)
qed

lemma wf_insert_from: "wf_node cur \<Longrightarrow> wf_node (insert_from cur word)"
proof (induction word arbitrary: cur)
  case Nil
  then show ?case by (simp add: wf_node_flag)
next
  case (Cons c word)
  let ?child = "case child_at cur (nat (letter_index c)) of None \<Rightarrow> new_Node | Some n \<Rightarrow> n"
  have "wf_node ?child"
    using Cons.prems wf_node_child wf_new_Node by (auto split: option.splits)
  from wf_node_update[OF Cons.prems Cons.IH[OF this]] Cons.prems show ?case
    by (simp add: Let_def)
qed

lemma child_at_update:
  assumes "length (children cur) = 26" and "i < 26"
  shows "child_at (Node e ((children cur)[i := x])) j = (if j = i then x else child_at cur j)"
  using assms by (auto simp: child_at_def)

lemma walk_insert_from:
  assumes "wf_node cur" and "\<forall>c \<in> set word. is_letter c"
  shows "trie_contains (insert_from cur word) word"
  using assms
proof (induction word arbitrary: cur)
  case Nil
  then show ?case by (simp add: trie_contains_def)
next
  case (Cons c word)
  let ?i = "nat (letter_index c)"
  let ?child = "case child_at cur ?i of None \<Rightarrow> new_Node | Some n \<Rightarrow> n"
  from Cons.prems(2) have l: "0 \<le> letter_index c" "letter_index c < 26" and r: "\<forall>c \<in> set word. is_letter c"
    by (auto simp: is_letter_def)
  then have i: "?i < 26" by auto
  have wc: "wf_node ?child"
    using Cons.prems(1) wf_node_child wf_new_Node by (auto split: option.splits)
  from Cons.IH[OF wc r] have "trie_contains (insert_from ?child word) word" .
  with l i child_at_update[OF wf_node_length[OF Cons.prems(1)] i] show ?case
    by (simp add: trie_contains_def Let_def)
qed

lemma child_at_flag: "child_at (Node e (children cur)) i = child_at cur i"
  by (simp add: child_at_def)

lemma walk_flag: "walk (Node e (children cur)) (c # cs) = walk cur (c # cs)"
  by (simp add: child_at_flag Let_def)

lemma insert_from_keeps:
  assumes "wf_node cur" and "trie_contains cur w"
  shows "trie_contains (insert_from cur v) w"
  using assms
proof (induction v arbitrary: cur w)
  case Nil
  then show ?case by (cases w) (simp_all add: trie_contains_def walk_flag del: walk.simps(2))
next
  case (Cons a v)
  note wfc = Cons.prems(1) and has = Cons.prems(2) and IH = Cons.IH
  let ?i = "nat (letter_index a)"
  let ?child = "case child_at cur ?i of None \<Rightarrow> new_Node | Some n \<Rightarrow> n"
  show ?case
  proof (cases "letter_index a < 0 \<or> 26 \<le> letter_index a")
    case True
    with has show ?thesis by (simp add: Let_def)
  next
    case False
    then have i: "?i < 26" by auto
    have wc: "wf_node ?child"
      using wfc wf_node_child wf_new_Node by (auto split: option.splits)
    have ins: "insert_from cur (a # v) =
        Node (is_end cur) ((children cur)[?i := Some (insert_from ?child v)])"
      using False by (simp add: Let_def)
    note ca = child_at_update[OF wf_node_length[OF wfc] i]
    show ?thesis
    proof (cases w)
      case Nil
      with has show ?thesis unfolding ins by (simp add: trie_contains_def)
    next
      case w: (Cons c cs)
      show ?thesis
      proof (cases "letter_index c < 0 \<or> 26 \<le> letter_index c")
        case True
        with w has show ?thesis by (simp add: trie_contains_def Let_def)
      next
        case lc: False
        show ?thesis
        proof (cases "nat (letter_index c) = ?i")
          case False
          with lc w has show ?thesis
            unfolding ins by (simp add: trie_contains_def Let_def ca)
        next
          case True
          with lc w has obtain n0 where n0: "child_at cur ?i = Some n0"
            and c0: "trie_contains n0 cs"
            by (auto simp: trie_contains_def Let_def split: option.splits)
          from n0 have "?child = n0" by simp
          with IH[OF wc, of cs] c0 have "trie_contains (insert_from ?child v) cs" by simp
          with True lc w show ?thesis
            unfolding ins by (simp add: trie_contains_def Let_def ca)
        qed
      qed
    qed
  qed
qed

lemma insert_node_keeps: "wf_node rt \<Longrightarrow> trie_contains rt w \<Longrightarrow> trie_contains (insert_node rt v) w"
  by (simp add: insert_node_def insert_from_keeps)

lemma wf_insert_node: "wf_node rt \<Longrightarrow> wf_node (insert_node rt v)"
  by (simp add: insert_node_def wf_insert_from)

lemma insert_node_contains:
  "wf_node rt \<Longrightarrow> \<forall>c \<in> set w. is_letter c \<Longrightarrow> w \<noteq> [] \<Longrightarrow> length w \<le> 25 \<Longrightarrow>
   trie_contains (insert_node rt w) w"
  by (simp add: insert_node_def walk_insert_from)

lemma build_trie_contains:
  assumes "wf_node (trie_root t)"
  shows "wf_node (trie_root (build_trie ws t)) \<and>
         prefix_cache (build_trie ws t) = prefix_cache t \<and>
         (\<forall>w. (trie_contains (trie_root t) w \<or>
                (w \<in> set ws \<and> 2 \<le> length w \<and> length w \<le> 20 \<and> (\<forall>c \<in> set w. is_letter c)))
              \<longrightarrow> trie_contains (trie_root (build_trie ws t)) w)"
  using assms
proof (induction ws arbitrary: t)
  case Nil
  then show ?case by simp
next
  case (Cons s ws)
  let ?t = "if 2 \<le> length s \<and> length s \<le> 20 then insert_word s t else t"
  have wf: "wf_node (trie_root ?t)"
    using Cons.prems by (simp add: insert_word_def wf_insert_node)
  have pc: "prefix_cache ?t = prefix_cache t" by (simp add: insert_word_def)
  have keep: "\<And>w. trie_contains (trie_root t) w \<Longrightarrow> trie_contains (trie_root ?t) w"
    using Cons.prems by (simp add: insert_word_def insert_node_keeps)
  have new: "2 \<le> length s \<Longrightarrow> length s \<le> 20 \<Longrightarrow> \<forall>c \<in> set s. is_letter c \<Longrightarrow>
        trie_contains (trie_root ?t) s"
  proof -
    assume a: "2 \<le> length s" "length s \<le> 20" "\<forall>c \<in> set s. is_letter c"
    then have "s \<noteq> []" "length s \<le> 25" by auto
    from insert_node_contains[OF Cons.prems a(3) this] a(1,2) show ?thesis
      by (simp add: insert_word_def)
  qed
  from Cons.IH[OF wf] pc keep new show ?case by auto
qed

lemma bubble_inner_set:
  "bubble_inner si rest = (m, rest') \<Longrightarrow> insert m (set rest') = insert si (set rest)"
proof (induction rest arbitrary: si m rest')
  case Nil
  then show ?case by auto
next
  case (Cons sj rest)
  show ?case
  proof (cases "length sj < length si")
    case True
    obtain m1 r1 where b: "bubble_inner sj rest = (m1, r1)" by (cases "bubble_inner sj rest")
    with True Cons.prems have "m = m1" "rest' = si # r1" by auto
    with Cons.IH[OF b] show ?thesis by auto
  next
    case False
    obtain m1 r1 where b: "bubble_inner si rest = (m1, r1)" by (cases "bubble_inner si rest")
    with False Cons.prems have "m = m1" "rest' = sj # r1" by auto
    with Cons.IH[OF b] show ?thesis by auto
  qed
qed

lemma bubble_by_length_set: "set (bubble_by_length xs) = set xs"
proof (induction xs rule: bubble_by_length.induct)
  case 1
  then show ?case by simp
next
  case (2 si rest)
  obtain m r where b: "bubble_inner si rest = (m, r)" by (cases "bubble_inner si rest")
  from "2.IH"[OF b[symmetric]] bubble_inner_set[OF b] b show ?case by simp
qed

lemma bfs_extends: "\<exists>more. bfs q results limit = results @ more"
proof (induction q results limit rule: bfs.induct)
  case (1 q results limit)
  show ?case
  proof (cases q)
    case Nil
    then have "bfs q results limit = results" by (subst bfs.simps) simp
    then show ?thesis by simp
  next
    case (Cons e q')
    obtain node str where e: "e = (node, str)" by (cases e)
    show ?thesis
    proof (cases "int (length results) < limit")
      case False
      with Cons e have "bfs q results limit = results" by (subst bfs.simps) simp
      then show ?thesis by simp
    next
      case True
      let ?r = "if is_end node then results @ [str] else results"
      from "1.IH"[OF Cons e[symmetric] True refl]
      obtain more where "bfs (push_children node str (length ?r) limit q' 0) ?r limit = ?r @ more"
        by auto
      moreover from Cons e True have "bfs q results limit =
          bfs (push_children node str (length ?r) limit q' 0) ?r limit"
        by (subst bfs.simps) (simp add: Let_def)
      ultimately have "bfs q results limit = ?r @ more" by simp
      then show ?thesis by (cases "is_end node") auto
    qed
  qed
qed

lemma starts_with_finds_word:
  assumes "trie_contains (trie_root t) w" and "w \<noteq> []" and "1 \<le> limit"
    and "prefix_cache t = empty_cache"
  shows "w \<in> set (fst (starts_with t w limit))"
proof -
  from assms(1) obtain cur where cur: "walk (trie_root t) w = Some cur" and e: "is_end cur"
    by (auto simp: trie_contains_def split: option.splits)
  obtain more where "bfs (push_children cur w (length [w]) limit [] 0) [w] limit = [w] @ more"
    using bfs_extends by blast
  moreover from e assms(3) have "bfs [(cur, w)] [] limit =
      bfs (push_children cur w (length [w]) limit [] 0) [w] limit"
    by (subst bfs.simps) (simp add: Let_def)
  ultimately have "bfs [(cur, w)] [] limit = [w] @ more" by simp
  with cur assms(2,4) show ?thesis
    by (simp add: starts_with_def find_in_cache_def empty_cache_def Let_def)
qed

lemma is_letter_islower: "is_letter c = islower_c c"
  by (auto simp: is_letter_def letter_index_def islower_c_def)

lemma build_from_files_trie:
  assumes "files \<noteq> []"
  shows "trie (build_from_files files ix0) =
     build_trie (bubble_by_length (rev (unique_words_vec
        (ingest files \<lparr>b_index = clear ix0, unique_words_vec = [], b_docId = 0\<rparr>))))
       (trie_clear (trie ix0))"
proof -
  have "\<And>st. trie (b_index (ingest files st)) = trie (b_index st)"
  proof (induction files)
    case Nil
    then show ?case by simp
  next
    case (Cons f files)
    obtain path opened where f: "f = (path, opened)" by (cases f)
    have "\<And>c. trie (b_index (ingest_file path c st)) = trie (b_index st)"
      by (simp add: ingest_file_def Let_def split: prod.splits)
    with Cons f show ?case by (auto simp: Let_def split: option.splits)
  qed
  from this[of "\<lparr>b_index = clear ix0, unique_words_vec = [], b_docId = 0\<rparr>"] assms
  show ?thesis by (simp add: build_from_files_def clear_def Let_def)
qed

text \<open>
  C6 (as amended). After \<^verbatim>\<open>build_from_files\<close>, every term that is a key of the inverted
  index, has a length between 2 and 20 and consists of the letters \<^verbatim>\<open>a\<close> to \<^verbatim>\<open>z\<close> only is
  in the trie: \<^verbatim>\<open>starts_with\<close> returns it for the term itself as prefix, with any limit
  \<open>\<ge> 1\<close>.
\<close>

theorem trie_contains_index_terms:
  assumes "t \<in> fst ` set (idx (build_from_files files ix0))"
    and "2 \<le> length t" and "length t \<le> 20" and "\<forall>c \<in> set t. islower_c c"
    and "1 \<le> limit"
  shows "t \<in> set (fst (starts_with (trie (build_from_files files ix0)) t limit))"
proof -
  have ne: "files \<noteq> []"
    using assms(1) by (auto simp: build_from_files_def clear_def Let_def)
  let ?st = "ingest files \<lparr>b_index = clear ix0, unique_words_vec = [], b_docId = 0\<rparr>"
  have inv: "build_inv ?st" by (rule ingest_inv[OF build_inv_init])
  from build_from_files_idx[OF ne, of ix0] assms(1)
  have "t \<in> fst ` set (idx (b_index ?st))" by simp
  with inv have "t \<in> set (unique_words_vec ?st)" by (simp add: build_inv_def)
  then have mem: "t \<in> set (bubble_by_length (rev (unique_words_vec ?st)))"
    by (simp add: bubble_by_length_set)
  have wf0: "wf_node (trie_root (trie_clear (trie ix0)))"
    by (simp add: trie_clear_def wf_new_Node)
  from build_trie_contains[OF wf0, of "bubble_by_length (rev (unique_words_vec ?st))"] mem assms(2-4)
  have c: "trie_contains (trie_root (trie (build_from_files files ix0))) t"
    and pc: "prefix_cache (trie (build_from_files files ix0)) = empty_cache"
    by (auto simp: build_from_files_trie[OF ne] is_letter_islower trie_clear_def)
  from assms(2) have "t \<noteq> []" by auto
  from starts_with_finds_word[OF c this assms(5) pc] show ?thesis .
qed


lemma tokenize_mp3: "tokenize_ultrafast ''mp3'' = [''mp3'']"
  by (simp add: tokenize_ultrafast_def char_class_defs keep_word_def STOP_WORDS_def)

lemma mp3_index:
  "idx (build_from_files [(''a.txt'', Some ''mp3'')] new_index)
     = [(''mp3'', [\<lparr>docID = 0, freq = 1, positions = [0]\<rparr>])]"
  "unique_words_vec (ingest [(''a.txt'', Some ''mp3'')]
      \<lparr>b_index = clear new_index, unique_words_vec = [], b_docId = 0\<rparr>) = [''mp3'']"
  by (simp_all add: build_from_files_idx ingest_file_def tokenize_mp3 add_token_def count_token_def
      new_Posting_def MAX_POSTING_POSITIONS_def short_of_int_def idx_push_def clear_def new_index_def
      Let_def)

lemma mp3_trie:
  "trie_root (trie (build_from_files [(''a.txt'', Some ''mp3'')] new_index))
     = insert_from new_Node ''mp3''"
  "prefix_cache (trie (build_from_files [(''a.txt'', Some ''mp3'')] new_index)) = empty_cache"
proof -
  have t: "trie (build_from_files [(''a.txt'', Some ''mp3'')] new_index)
      = build_trie (bubble_by_length (rev [''mp3''])) (trie_clear (trie new_index))"
    by (subst build_from_files_trie) (simp_all only: mp3_index(2) list.simps simp_thms)
  show "trie_root (trie (build_from_files [(''a.txt'', Some ''mp3'')] new_index))
     = insert_from new_Node ''mp3''"
    unfolding t by (simp add: trie_clear_def insert_word_def insert_node_def del: insert_from.simps)
  show "prefix_cache (trie (build_from_files [(''a.txt'', Some ''mp3'')] new_index)) = empty_cache"
    unfolding t by (simp add: trie_clear_def insert_word_def)
qed

lemma mp3_walks:
  "walk (insert_from new_Node ''mp3'') ''m''
     = Some (Node False ((replicate 26 None)[15 := Some new_Node]))"
  "walk (insert_from new_Node ''mp3'') ''mp'' = Some new_Node"
  "walk (insert_from new_Node ''mp3'') ''mp3'' = None"
  by (simp_all add: new_Node_def letter_index_def child_at_def Let_def eval_nat_numeral)

lemma starts_with_fresh:
  assumes "prefix_cache t = empty_cache" and "prefix \<noteq> []"
  shows "fst (starts_with t prefix limit) =
         (case walk (trie_root t) prefix of None \<Rightarrow> [] | Some cur \<Rightarrow> bfs [(cur, prefix)] [] limit)"
  using assms
  by (simp add: starts_with_def find_in_cache_def empty_cache_def Let_def split: option.splits)

lemma bfs_Nil: "bfs [] results limit = results"
  by (subst bfs.simps) simp

lemma bfs_Cons:
  "int (length results) < limit \<Longrightarrow>
   bfs ((node, str) # q') results limit =
     bfs (push_children node str (length (if is_end node then results @ [str] else results)) limit q' 0)
       (if is_end node then results @ [str] else results) limit"
  by (subst bfs.simps) (simp add: Let_def)

lemma push_children_skip:
  assumes "\<And>j. i \<le> j \<Longrightarrow> child_at node j = None"
  shows "push_children node str rs limit q i = q"
  using assms
proof (induction node str rs limit q i rule: push_children.induct)
  case (1 node str rs limit q i)
  show ?case
  proof (cases "i < 26 \<and> int rs < limit")
    case False
    then show ?thesis by (subst push_children.simps) auto
  next
    case True
    have "push_children node str rs limit q i = push_children node str rs limit q (i + 1)"
      using True "1.prems"[of i] by (subst push_children.simps) simp
    also have "\<dots> = q"
      using "1.IH"[OF True] "1.prems" by (simp add: "1.prems"[of i])
    finally show ?thesis .
  qed
qed

lemma child_at_new_Node: "child_at new_Node j = None"
  by (simp add: child_at_def new_Node_def)

lemma bfs_leaf: "bfs [(new_Node, str)] [] 2147483647 = []"
  by (simp add: bfs_Cons bfs_Nil push_children_skip child_at_new_Node)
     (simp add: new_Node_def)

lemma push_children_step:
  "i < 26 \<Longrightarrow> int rs < limit \<Longrightarrow>
   push_children node str rs limit q i =
     push_children node str rs limit
       (case child_at node i of None \<Rightarrow> q | Some child \<Rightarrow> q_push q (child, str @ [char_of (97 + i)]))
       (i + 1)"
  by (subst push_children.simps) simp

lemma child_at_single:
  "child_at (Node False ((replicate 26 None)[15 := Some n])) j = (if j = 15 then Some n else None)"
  by (auto simp: child_at_def)

lemma push_children_skip_to:
  assumes "i \<le> k" and "k \<le> 26" and "int rs < limit"
    and "\<And>j. i \<le> j \<Longrightarrow> j < k \<Longrightarrow> child_at node j = None"
  shows "push_children node str rs limit q i = push_children node str rs limit q k"
  using assms
proof (induction "k - i" arbitrary: i)
  case 0
  then show ?case by simp
next
  case (Suc d)
  then have lt: "i < k" and i26: "i < 26" by auto
  from Suc.prems(4)[of i] lt have none: "child_at node i = None" by simp
  have "push_children node str rs limit q i = push_children node str rs limit q (i + 1)"
    using push_children_step[OF i26 Suc.prems(3), of node str q] none by simp
  also have "\<dots> = push_children node str rs limit q k"
    using Suc.hyps(2) lt Suc.prems(2,3,4) by (intro Suc.hyps(1)) auto
  finally show ?case .
qed

lemma push_children_single:
  "push_children (Node False ((replicate 26 None)[15 := Some n])) ''m'' 0 2147483647 [] 0
     = [(n, ''mp'')]"
proof -
  let ?nd = "Node False ((replicate 26 None)[15 := Some n])"
  have "push_children ?nd ''m'' 0 2147483647 [] 0 = push_children ?nd ''m'' 0 2147483647 [] 15"
    by (rule push_children_skip_to) (simp_all add: child_at_single)
  also have "\<dots> = push_children ?nd ''m'' 0 2147483647 [(n, ''mp'')] 16"
    by (subst push_children_step)
       (simp_all add: child_at_single q_push_def MAX_QUEUE_SIZE_def char_of_def bit_0)
  also have "\<dots> = [(n, ''mp'')]"
    by (rule push_children_skip) (simp add: child_at_single)
  finally show ?thesis .
qed

lemma bfs_above_leaf:
  "bfs [(Node False ((replicate 26 None)[15 := Some new_Node]), ''m'')] [] 2147483647 = []"
  by (simp add: bfs_Cons push_children_single bfs_leaf)

text \<open>
  A term with a digit is indexed but not inserted: \<^verbatim>\<open>insert\<close> returns at the first byte
  outside \<^verbatim>\<open>'a'..'z'\<close>. For a file containing \<^verbatim>\<open>mp3\<close>, the term is a key of the index and
  \<^verbatim>\<open>starts_with\<close> returns nothing for each of its prefixes, with the largest limit.
\<close>

theorem digit_term_not_in_trie_counterexample:
  "''mp3'' \<in> fst ` set (idx (build_from_files [(''a.txt'', Some ''mp3'')] new_index)) \<and>
   fst (starts_with (trie (build_from_files [(''a.txt'', Some ''mp3'')] new_index)) ''m'' 2147483647) = [] \<and>
   fst (starts_with (trie (build_from_files [(''a.txt'', Some ''mp3'')] new_index)) ''mp'' 2147483647) = [] \<and>
   fst (starts_with (trie (build_from_files [(''a.txt'', Some ''mp3'')] new_index)) ''mp3'' 2147483647) = []"
proof (intro conjI)
  show "''mp3'' \<in> fst ` set (idx (build_from_files [(''a.txt'', Some ''mp3'')] new_index))"
    by (simp add: mp3_index(1))
  show "fst (starts_with (trie (build_from_files [(''a.txt'', Some ''mp3'')] new_index)) ''m'' 2147483647) = []"
    by (subst starts_with_fresh[OF mp3_trie(2)])
       (simp_all only: mp3_trie(1) mp3_walks option.case bfs_above_leaf, simp)
  show "fst (starts_with (trie (build_from_files [(''a.txt'', Some ''mp3'')] new_index)) ''mp'' 2147483647) = []"
    by (subst starts_with_fresh[OF mp3_trie(2)])
       (simp_all only: mp3_trie(1) mp3_walks option.case bfs_leaf, simp)
  show "fst (starts_with (trie (build_from_files [(''a.txt'', Some ''mp3'')] new_index)) ''mp3'' 2147483647) = []"
    by (subst starts_with_fresh[OF mp3_trie(2)])
       (simp_all only: mp3_trie(1) mp3_walks option.case, simp)
qed

lemma hello_idx_keys:
  "''hello'' \<in> fst ` set (idx (build_from_files [(''a.txt'', Some ''hello world hello'')] new_index))"
  using build_hello_idx by (metis domI dom_map_of_conv_image_fst)

theorem trie_contains_index_terms_witness:
  "''hello'' \<in> fst ` set (idx (build_from_files [(''a.txt'', Some ''hello world hello'')] new_index)) \<and>
   list_all islower_c ''hello'' \<and>
   ''hello'' \<in> set (fst (starts_with
      (trie (build_from_files [(''a.txt'', Some ''hello world hello'')] new_index)) ''hello'' 5))"
proof -
  have l: "\<forall>c \<in> set ''hello''. islower_c c" by (simp add: islower_c_def)
  from trie_contains_index_terms[OF hello_idx_keys _ _ l, of 5] l hello_idx_keys
  show ?thesis by (simp add: list_all_iff)
qed

end
